theory Spec2Isabelle
  imports Complex_Main "HOL-Library.Log_Nat"
begin

section \<open>The wear-bucketed outfit inventory of OutfitGroup.cpp\<close>

text \<open>
  An \<open>OutfitGroup\<close> owns one member, \<open>outfits\<close>, of type
  \<open>std::map<const Outfit*, std::map<int, int>>\<close>: for every outfit (compared by
  address) an \<open>InnerMap\<close> from wear level to quantity. A \<open>std::map\<close> is modelled
  as an association list whose keys are strictly ascending, which is the order in which
  its iterators visit it. An outfit pointer is its address, a natural number,
  \<open>nullptr\<close> being 0.

  A C++ \<open>int\<close> has 32 bits. It is modelled as an \<open>int\<close> between \<open>-2^31\<close> and
  \<open>2^31 - 1\<close>, and every addition, subtraction and negation of the code is followed
  by \<open>int32\<close>, which brings the exact result back into that range modulo \<open>2^32\<close>:
  the two's complement wrap-around of the compiled code.
\<close>

definition is_int32 :: "int \<Rightarrow> bool" where
  "is_int32 x = (- 2147483648 \<le> x \<and> x \<le> 2147483647)"

definition int32 :: "int \<Rightarrow> int" where
  "int32 x = (x + 2147483648) mod 4294967296 - 2147483648"

type_synonym InnerMap = "(int \<times> int) list"
type_synonym OutfitPtr = nat
type_synonym OutfitGroup = "(OutfitPtr \<times> InnerMap) list"

definition nullptr :: OutfitPtr where
  "nullptr = 0"

subsection \<open>The operations of std::map that the code uses\<close>

text \<open>\<open>m[k] = v\<close>: assign to the entry with key \<open>k\<close>, inserting it in key order when absent.\<close>

fun map_assign :: "'k::linorder \<Rightarrow> 'v \<Rightarrow> ('k \<times> 'v) list \<Rightarrow> ('k \<times> 'v) list" where
  "map_assign k v [] = [(k, v)]"
| "map_assign k v ((k', v') # m) =
     (if k < k' then (k, v) # (k', v') # m
      else if k = k' then (k, v) # m
      else (k', v') # map_assign k v m)"

text \<open>\<open>m.erase(it)\<close> for an iterator \<open>it\<close> at key \<open>k\<close>.\<close>

fun map_erase :: "'k \<Rightarrow> ('k \<times> 'v) list \<Rightarrow> ('k \<times> 'v) list" where
  "map_erase k [] = []"
| "map_erase k ((k', v') # m) = (if k = k' then map_erase k m else (k', v') # map_erase k m)"

text \<open>\<open>m.find(k)\<close>: the value stored under \<open>k\<close>, \<open>None\<close> for \<open>m.end()\<close>.\<close>

definition map_find :: "('k \<times> 'v) list \<Rightarrow> 'k \<Rightarrow> 'v option" where
  "map_find m k = map_of m k"

text \<open>The representation invariant of a \<open>std::map\<close>: keys strictly ascending.\<close>

definition is_map :: "('k::linorder \<times> 'v) list \<Rightarrow> bool" where
  "is_map m = sorted_wrt (<) (map fst m)"

text \<open>
  The representation invariant of the member \<open>outfits\<close>: both levels are maps, and
  every wear level and every quantity is a value of the type \<open>int\<close>.
\<close>

definition is_ledger :: "InnerMap \<Rightarrow> bool" where
  "is_ledger inner = (is_map inner \<and> list_all (\<lambda>e. is_int32 (fst e) \<and> is_int32 (snd e)) inner)"

definition is_group :: "OutfitGroup \<Rightarrow> bool" where
  "is_group g = (is_map g \<and> list_all (\<lambda>e. is_ledger (snd e)) g)"

subsection \<open>Queries\<close>

definition Find :: "OutfitGroup \<Rightarrow> OutfitPtr \<Rightarrow> InnerMap option" where
  "Find g outfit = map_find g outfit"

text \<open>\<open>GetTotalCount\<close> adds the quantities up in an \<open>int\<close>, bucket after bucket.\<close>

definition GetTotalCount :: "OutfitGroup \<Rightarrow> OutfitPtr \<Rightarrow> int" where
  "GetTotalCount g outfit =
     (case map_find g outfit of
        None \<Rightarrow> 0
      | Some inner \<Rightarrow> fold (\<lambda>it count. int32 (count + snd it)) inner 0)"

text \<open>The quantity held at one wear level, \<open>None\<close> when there is no such bucket.\<close>

definition bucket :: "OutfitGroup \<Rightarrow> OutfitPtr \<Rightarrow> int \<Rightarrow> int option" where
  "bucket g outfit wear =
     (case map_find g outfit of
        None \<Rightarrow> None
      | Some inner \<Rightarrow> map_find inner wear)"

subsection \<open>AddOutfit\<close>

text \<open>
  Both \<open>AddOutfit\<close> and \<open>RemoveOutfit\<close> change the ledger \<open>oit->second\<close> of
  an item that is present in place and end with
  \<open>if (oit->second.empty()) outfits.erase(oit);\<close>.
\<close>

definition store_ledger :: "OutfitPtr \<Rightarrow> InnerMap \<Rightarrow> OutfitGroup \<Rightarrow> OutfitGroup" where
  "store_ledger outfit inner g = (if inner = [] then map_erase outfit g else map_assign outfit inner g)"

text \<open>
  \<open>AddOutfit\<close> returns the changed group and the value of \<open>return count\<close>. A new
  item gets a fresh ledger with the one bucket; a new wear level of a held item gets a
  bucket; an existing bucket is incremented (\<open>+=\<close> on an \<open>int\<close>) and erased when it
  reaches zero, and the ledger is erased when that leaves it empty.
\<close>

definition AddOutfit :: "OutfitGroup \<Rightarrow> OutfitPtr \<Rightarrow> int \<Rightarrow> int \<Rightarrow> OutfitGroup \<times> int" where
  "AddOutfit g outfit count wear =
     (case map_find g outfit of
        None \<Rightarrow> (map_assign outfit (map_assign wear count []) g, count)
      | Some inner \<Rightarrow>
          (let inner' =
                 (case map_find inner wear of
                    None \<Rightarrow> map_assign wear count inner
                  | Some q \<Rightarrow>
                      (let added = map_assign wear (int32 (q + count)) inner
                       in if int32 (q + count) = 0 then map_erase wear added else added))
           in (store_ledger outfit inner' g, count)))"

subsection \<open>RemoveOutfit\<close>

text \<open>
  \<open>RemoveOutfit\<close> works on the ledger \<open>oit->second\<close> of the item and, when the
  pointer \<open>to\<close> is not null, on the group \<open>*to\<close>, which is modelled as a second
  group (\<open>None\<close> for a null pointer; the source and the destination are different
  objects). The state of either loop is the ledger, the destination and \<open>removed\<close>;
  the loop over the most worn buckets also carries the vector \<open>toErase\<close>.

  With \<open>mostWornFirst\<close> the loop is a do-while that walks the ledger backwards from
  \<open>end()\<close>: \<open>drain_most_worn\<close> receives the buckets still to visit, most worn
  first, runs the body on the first one, and goes on while \<open>count > removed\<close> and
  the iterator is not at \<open>begin()\<close>. The body reads the bucket through the iterator
  (\<open>iit->second\<close>) and writes it through \<open>oit->second[wear]\<close>, the same bucket.
  Decrementing \<open>end()\<close> of an empty ledger is undefined in C++; \<open>AddOutfit\<close> and
  \<open>RemoveOutfit\<close> erase a ledger as soon as it is empty, and the model runs no
  iteration on an empty one.
\<close>

type_synonym drain_state = "InnerMap \<times> OutfitGroup option \<times> int"

definition deposit :: "OutfitGroup option \<Rightarrow> OutfitPtr \<Rightarrow> int \<Rightarrow> int \<Rightarrow> OutfitGroup option" where
  "deposit to outfit toRemove wear =
     (case to of
        None \<Rightarrow> None
      | Some dest \<Rightarrow> Some (fst (AddOutfit dest outfit toRemove wear)))"

fun drain_most_worn ::
  "OutfitPtr \<Rightarrow> int \<Rightarrow> (int \<times> int) list \<Rightarrow> drain_state \<times> int list \<Rightarrow> drain_state \<times> int list" where
  "drain_most_worn outfit count [] st = st"
| "drain_most_worn outfit count ((wear, q) # rest) ((inner, to, removed), toErase) =
     (let toRemove = min q (int32 (count - removed));
          removed' = int32 (removed + toRemove);
          inner' = map_assign wear (int32 (q - toRemove)) inner;
          to' = deposit to outfit toRemove wear;
          toErase' = (if int32 (q - toRemove) = 0 then toErase @ [wear] else toErase)
      in if count > removed' \<and> rest \<noteq> []
         then drain_most_worn outfit count rest ((inner', to', removed'), toErase')
         else ((inner', to', removed'), toErase'))"

text \<open>
  Otherwise the loop is a while loop from \<open>begin()\<close>, which erases a drained bucket at
  once (\<open>erase(iit++)\<close>).
\<close>

fun drain_least_worn ::
  "OutfitPtr \<Rightarrow> int \<Rightarrow> (int \<times> int) list \<Rightarrow> drain_state \<Rightarrow> drain_state" where
  "drain_least_worn outfit count [] st = st"
| "drain_least_worn outfit count ((wear, q) # rest) (inner, to, removed) =
     (if count > removed
      then (let toRemove = min q (int32 (count - removed));
                removed' = int32 (removed + toRemove);
                inner' = map_assign wear (int32 (q - toRemove)) inner;
                to' = deposit to outfit toRemove wear;
                inner'' = (if int32 (q - toRemove) = 0 then map_erase wear inner' else inner')
            in drain_least_worn outfit count rest (inner'', to', removed'))
      else (inner, to, removed))"

definition RemoveOutfit ::
  "OutfitGroup \<Rightarrow> OutfitPtr \<Rightarrow> int \<Rightarrow> bool \<Rightarrow> OutfitGroup option
     \<Rightarrow> OutfitGroup \<times> OutfitGroup option \<times> int" where
  "RemoveOutfit g outfit count mostWornFirst to =
     (case map_find g outfit of
        None \<Rightarrow> (g, to, 0)
      | Some inner \<Rightarrow>
          (let (inner', to', removed) =
                 (if mostWornFirst
                  then (let ((drained, dest, n), toErase) =
                              drain_most_worn outfit count (rev inner) ((inner, to, 0), [])
                        in (fold map_erase toErase drained, dest, n))
                  else drain_least_worn outfit count inner (inner, to, 0))
           in (store_ledger outfit inner' g, to', removed)))"

subsection \<open>TransferOutfits, IncrementWear, Clear\<close>

text \<open>
  \<open>TransferOutfits\<close> returns the source, the destination and the signed number of
  units moved. With a destination and a negative count it calls itself on the
  destination with the roles exchanged and the count \<open>-count\<close>. That count is positive
  and the call ends in \<open>RemoveOutfit\<close>, except for the count \<open>-2^31\<close>, whose
  negation in an \<open>int\<close> is \<open>-2^31\<close> again: then the two groups call each other
  without end, and the result is \<open>None\<close>.
\<close>

partial_function (option) TransferOutfits ::
  "OutfitGroup \<Rightarrow> OutfitPtr \<Rightarrow> int \<Rightarrow> OutfitGroup option \<Rightarrow> bool \<Rightarrow> int
     \<Rightarrow> (OutfitGroup \<times> OutfitGroup option \<times> int) option" where
  "TransferOutfits g outfit count to mostWornFirst defaultWear =
     (if count = 0 \<or> outfit = nullptr then Some (g, to, 0)
      else (case to of
              None \<Rightarrow>
                (if count > 0 then Some (RemoveOutfit g outfit count mostWornFirst None)
                 else (let (g', added) = AddOutfit g outfit (int32 (- count)) defaultWear
                       in Some (g', None, int32 (- added))))
            | Some dest \<Rightarrow>
                (if count < 0
                 then Option.bind
                        (TransferOutfits dest outfit (int32 (- count)) (Some g) mostWornFirst defaultWear)
                        (\<lambda>(dest', this, moved).
                            Some (case this of None \<Rightarrow> g | Some g' \<Rightarrow> g', Some dest', int32 (- moved)))
                 else Some (RemoveOutfit g outfit count mostWornFirst (Some dest)))))"

text \<open>
  \<open>IncrementWear\<close> copies each ledger, clears it and inserts every bucket of the copy
  again under the key \<open>wear + value\<close>, an \<open>int\<close>.
\<close>

definition shift_ledger :: "int \<Rightarrow> InnerMap \<Rightarrow> InnerMap" where
  "shift_ledger v temp = fold (\<lambda>(wear, q) inner. map_assign (int32 (wear + v)) q inner) temp []"

definition IncrementWear :: "OutfitGroup \<Rightarrow> int \<Rightarrow> OutfitGroup" where
  "IncrementWear g v = map (\<lambda>(outfit, inner). (outfit, shift_ledger v inner)) g"

definition Clear :: "OutfitGroup \<Rightarrow> OutfitGroup" where
  "Clear g = []"

subsection \<open>Counting units\<close>

text \<open>The number of units in a ledger at one wear level: 0 when there is no bucket.\<close>

definition units_in :: "InnerMap \<Rightarrow> int \<Rightarrow> int" where
  "units_in inner wear = (case map_find inner wear of None \<Rightarrow> 0 | Some q \<Rightarrow> q)"

text \<open>
  The number of units of an item as a mathematical integer: the sum of its buckets,
  whether or not it fits an \<open>int\<close>.
\<close>

definition total_units :: "OutfitGroup \<Rightarrow> OutfitPtr \<Rightarrow> int" where
  "total_units g outfit =
     (case map_find g outfit of
        None \<Rightarrow> 0
      | Some inner \<Rightarrow> sum_list (map snd inner))"

subsection \<open>The plan of a removal\<close>

text \<open>
  What either loop of \<open>RemoveOutfit\<close> does is fixed by the buckets in the order of
  the visit and by the number of units still wanted: the \<open>allotment\<close> lists, for
  every bucket the loop body runs on, the wear level, the quantity left in the bucket
  and the quantity moved out of it. It is used to state what the loops compute.
\<close>

fun allotment :: "int \<Rightarrow> (int \<times> int) list \<Rightarrow> (int \<times> int \<times> int) list" where
  "allotment n [] = []"
| "allotment n ((wear, q) # rest) =
     (if 0 < n then (wear, q - min q n, min q n) # allotment (n - min q n) rest else [])"

definition moved_total :: "(int \<times> int \<times> int) list \<Rightarrow> int" where
  "moved_total p = sum_list (map (\<lambda>(wear, left, moved). moved) p)"

definition write_back :: "(int \<times> int \<times> int) list \<Rightarrow> InnerMap \<Rightarrow> InnerMap" where
  "write_back p inner = fold (\<lambda>(wear, left, moved). map_assign wear left) p inner"

definition drained :: "(int \<times> int \<times> int) list \<Rightarrow> int list" where
  "drained p = map fst (filter (\<lambda>(wear, left, moved). left = 0) p)"

definition write_back_erasing :: "(int \<times> int \<times> int) list \<Rightarrow> InnerMap \<Rightarrow> InnerMap" where
  "write_back_erasing p inner =
     fold (\<lambda>(wear, left, moved) m.
             if left = 0 then map_erase wear (map_assign wear left m) else map_assign wear left m)
       p inner"

definition deposit_all ::
  "OutfitPtr \<Rightarrow> (int \<times> int \<times> int) list \<Rightarrow> OutfitGroup option \<Rightarrow> OutfitGroup option" where
  "deposit_all outfit p to = fold (\<lambda>(wear, left, moved) d. deposit d outfit moved wear) p to"

text \<open>The quantity a plan moves out of one wear level.\<close>

definition moved_at :: "(int \<times> int \<times> int) list \<Rightarrow> int \<Rightarrow> int" where
  "moved_at p wear = (case map_of p wear of None \<Rightarrow> 0 | Some (left, moved) \<Rightarrow> moved)"

text \<open>Every bucket of a ledger holds at least one unit.\<close>

definition positive :: "InnerMap \<Rightarrow> bool" where
  "positive inner = list_all (\<lambda>e. 0 < snd e) inner"

text \<open>The number of units of an item at one wear level: 0 when there is no bucket.\<close>

definition units_at :: "OutfitGroup \<Rightarrow> OutfitPtr \<Rightarrow> int \<Rightarrow> int" where
  "units_at g outfit wear = (case bucket g outfit wear of None \<Rightarrow> 0 | Some q \<Rightarrow> q)"

subsection \<open>The invariant of the inventory\<close>

text \<open>
  No item maps to an empty ledger, and every bucket of every ledger holds a strictly
  positive quantity (so none holds zero).
\<close>

definition no_empty_buckets :: "OutfitGroup \<Rightarrow> bool" where
  "no_empty_buckets g = list_all (\<lambda>e. snd e \<noteq> [] \<and> positive (snd e)) g"

text \<open>The destination after the deposits of a plan, when there is a destination.\<close>

definition deposits :: "OutfitPtr \<Rightarrow> (int \<times> int \<times> int) list \<Rightarrow> OutfitGroup \<Rightarrow> OutfitGroup" where
  "deposits outfit p dest = fold (\<lambda>(wear, left, moved) d. fst (AddOutfit d outfit moved wear)) p dest"

text \<open>The plan that \<open>RemoveOutfit\<close> follows on a group.\<close>

definition removal_plan :: "OutfitGroup \<Rightarrow> OutfitPtr \<Rightarrow> int \<Rightarrow> bool \<Rightarrow> (int \<times> int \<times> int) list" where
  "removal_plan g outfit count mostWornFirst =
     (case map_find g outfit of
        None \<Rightarrow> []
      | Some inner \<Rightarrow> allotment count (if mostWornFirst then rev inner else inner))"


subsection \<open>Sequences of calls on two inventories\<close>

text \<open>
  The public operations that change an inventory, as calls on one of two inventories.
  The flag of \<open>CallRemoveOutfit\<close> and \<open>CallTransferOutfits\<close> tells whether the
  pointer \<open>to\<close> is the other inventory or null. A call that does not return has the
  result \<open>None\<close>, and so has every sequence of calls that contains it.
\<close>

datatype call =
    CallAddOutfit OutfitPtr int int
  | CallRemoveOutfit OutfitPtr int bool bool
  | CallTransferOutfits OutfitPtr int bool bool int
  | CallIncrementWear int
  | CallClear

datatype receiver = First | Second

text \<open>A call on the inventory \<open>g\<close>, the other inventory being \<open>h\<close>.\<close>

fun perform :: "call \<Rightarrow> OutfitGroup \<times> OutfitGroup \<Rightarrow> (OutfitGroup \<times> OutfitGroup) option" where
  "perform (CallAddOutfit outfit count wear) (g, h) = Some (fst (AddOutfit g outfit count wear), h)"
| "perform (CallRemoveOutfit outfit count mostWornFirst toOther) (g, h) =
     (case RemoveOutfit g outfit count mostWornFirst (if toOther then Some h else None) of
        (g', None, removed) \<Rightarrow> Some (g', h)
      | (g', Some h', removed) \<Rightarrow> Some (g', h'))"
| "perform (CallTransferOutfits outfit count toOther mostWornFirst defaultWear) (g, h) =
     (case TransferOutfits g outfit count (if toOther then Some h else None) mostWornFirst defaultWear of
        None \<Rightarrow> None
      | Some (g', None, moved) \<Rightarrow> Some (g', h)
      | Some (g', Some h', moved) \<Rightarrow> Some (g', h'))"
| "perform (CallIncrementWear v) (g, h) = Some (IncrementWear g v, h)"
| "perform CallClear (g, h) = Some (Clear g, h)"

fun step ::
  "receiver \<times> call \<Rightarrow> OutfitGroup \<times> OutfitGroup \<Rightarrow> (OutfitGroup \<times> OutfitGroup) option" where
  "step (First, c) (a, b) = perform c (a, b)"
| "step (Second, c) (a, b) = (case perform c (b, a) of None \<Rightarrow> None | Some (b', a') \<Rightarrow> Some (a', b'))"

fun run ::
  "(receiver \<times> call) list \<Rightarrow> OutfitGroup \<times> OutfitGroup \<Rightarrow> (OutfitGroup \<times> OutfitGroup) option" where
  "run [] s = Some s"
| "run (x # calls) s = (case step x s of None \<Rightarrow> None | Some s' \<Rightarrow> run calls s')"

text \<open>
  The discipline under which the invariant is kept. An execution of \<open>AddOutfit\<close> is
  within stock when it puts a positive count into a new bucket, or changes a bucket
  that exists to a quantity that is not negative and fits an \<open>int\<close>.
\<close>

definition add_within_stock :: "OutfitGroup \<Rightarrow> OutfitPtr \<Rightarrow> int \<Rightarrow> int \<Rightarrow> bool" where
  "add_within_stock g outfit count wear =
     (is_int32 count \<and> is_int32 wear \<and>
      (case bucket g outfit wear of
         None \<Rightarrow> 0 < count
       | Some q \<Rightarrow> 0 \<le> q + count \<and> q + count \<le> 2147483647))"

text \<open>No deposit of a plan takes a bucket of the destination beyond the largest \<open>int\<close>.\<close>

definition deposits_fit :: "OutfitGroup \<Rightarrow> OutfitPtr \<Rightarrow> (int \<times> int \<times> int) list \<Rightarrow> bool" where
  "deposits_fit h outfit p =
     list_all (\<lambda>(wear, left, moved). units_at h outfit wear + moved \<le> 2147483647) p"

text \<open>
  \<open>RemoveOutfit\<close> on \<open>g\<close> with the other inventory \<open>h\<close>. With a positive count
  the deposits must fit the destination. With a count that is not positive the loop
  over the least worn buckets does nothing, and the do-while loop over the most worn
  ones runs its body once, with \<open>toRemove = count\<close>, on the most worn bucket: this
  bucket grows by \<open>-count\<close> and must still fit an \<open>int\<close>, and the call of
  \<open>AddOutfit\<close> on the destination must be within stock.
\<close>

definition remove_admissible ::
  "OutfitGroup \<Rightarrow> OutfitGroup \<Rightarrow> OutfitPtr \<Rightarrow> int \<Rightarrow> bool \<Rightarrow> bool \<Rightarrow> bool" where
  "remove_admissible g h outfit count mostWornFirst toOther =
     (is_int32 count \<and>
      (case map_find g outfit of
         None \<Rightarrow> True
       | Some inner \<Rightarrow>
           if 0 < count
           then (toOther \<longrightarrow> deposits_fit h outfit (removal_plan g outfit count mostWornFirst))
           else if mostWornFirst
           then (case last inner of
                   (wear, q) \<Rightarrow> q - count \<le> 2147483647
                               \<and> (toOther \<longrightarrow> add_within_stock h outfit count wear))
           else True))"

text \<open>
  \<open>TransferOutfits\<close> returns at once for the count 0 or a null outfit. Otherwise it
  negates a negative count, which must not be \<open>-2^31\<close>, and ends in \<open>RemoveOutfit\<close>
  on the source, in \<open>RemoveOutfit\<close> on the destination, or in \<open>AddOutfit\<close>.
\<close>

definition transfer_admissible ::
  "OutfitGroup \<Rightarrow> OutfitGroup \<Rightarrow> OutfitPtr \<Rightarrow> int \<Rightarrow> bool \<Rightarrow> bool \<Rightarrow> int \<Rightarrow> bool" where
  "transfer_admissible g h outfit count toOther mostWornFirst defaultWear =
     (is_int32 count \<and>
      (if count = 0 \<or> outfit = nullptr then True
       else if 0 < count then remove_admissible g h outfit count mostWornFirst toOther
       else count \<noteq> - 2147483648 \<and>
            (if toOther then remove_admissible h g outfit (- count) mostWornFirst True
             else add_within_stock g outfit (- count) defaultWear)))"

fun admissible :: "call \<Rightarrow> OutfitGroup \<times> OutfitGroup \<Rightarrow> bool" where
  "admissible (CallAddOutfit outfit count wear) (g, h) = add_within_stock g outfit count wear"
| "admissible (CallRemoveOutfit outfit count mostWornFirst toOther) (g, h) =
     remove_admissible g h outfit count mostWornFirst toOther"
| "admissible (CallTransferOutfits outfit count toOther mostWornFirst defaultWear) (g, h) =
     transfer_admissible g h outfit count toOther mostWornFirst defaultWear"
| "admissible (CallIncrementWear v) (g, h) = is_int32 v"
| "admissible CallClear (g, h) = True"

text \<open>Every call of a sequence is admissible in the state in which it is made.\<close>

fun disciplined :: "(receiver \<times> call) list \<Rightarrow> OutfitGroup \<times> OutfitGroup \<Rightarrow> bool" where
  "disciplined [] s = True"
| "disciplined ((r, c) # calls) (a, b) =
     (admissible c (case r of First \<Rightarrow> (a, b) | Second \<Rightarrow> (b, a))
      \<and> (case step (r, c) (a, b) of None \<Rightarrow> True | Some s' \<Rightarrow> disciplined calls s'))"

text \<open>The invariant together with the representation invariant.\<close>

definition sound :: "OutfitGroup \<Rightarrow> bool" where
  "sound g = (is_group g \<and> no_empty_buckets g)"

section \<open>The iterator of OutfitGroup\<close>

text \<open>
  An \<open>OutfitGroup::iterator\<close> holds the group it belongs to, an iterator into
  \<open>outfits\<close>, an iterator into one ledger, and the flag \<open>isEnd\<close>. A map iterator
  is a position: \<open>outerIter\<close> is the index of an entry of \<open>outfits\<close>, the length of
  \<open>outfits\<close> standing for \<open>end()\<close>; \<open>innerIter\<close> names the ledger it points into,
  by the index of the ledger's entry, and the index within that ledger. Iterators into
  different ledgers are different. The constructors evaluate
  \<open>outerIter->second.begin()\<close> also when \<open>outerIter\<close> is \<open>outfits.end()\<close>, which
  C++ leaves undefined; the model gives this iterator the position 0 of a ledger of its
  own, at the index of \<open>end()\<close>, which is no ledger of the group.
\<close>

record iterator =
  myGroup :: nat
  outerIter :: nat
  innerIter :: "nat \<times> nat"
  isEnd :: bool

text \<open>\<open>iterator(group, begin)\<close>: the group is given by its address and its contents.\<close>

definition iterator_at :: "nat \<Rightarrow> OutfitGroup \<Rightarrow> bool \<Rightarrow> iterator" where
  "iterator_at this g from_begin =
     (if from_begin \<and> g \<noteq> []
      then \<lparr>myGroup = this, outerIter = 0, innerIter = (0, 0), isEnd = False\<rparr>
      else \<lparr>myGroup = this, outerIter = length g, innerIter = (length g, 0), isEnd = True\<rparr>)"

text \<open>\<open>outfits.find(outfit)\<close> as a position.\<close>

fun position_of :: "OutfitPtr \<Rightarrow> OutfitGroup \<Rightarrow> nat" where
  "position_of outfit [] = 0"
| "position_of outfit ((k, inner) # g) = (if k = outfit then 0 else Suc (position_of outfit g))"

text \<open>\<open>iterator(group, outfit)\<close>.\<close>

definition iterator_find :: "nat \<Rightarrow> OutfitGroup \<Rightarrow> OutfitPtr \<Rightarrow> iterator" where
  "iterator_find this g outfit =
     (let outer = position_of outfit g
      in \<lparr>myGroup = this, outerIter = outer, innerIter = (outer, 0),
          isEnd = (outer = length g \<or> snd (g ! outer) = [])\<rparr>)"

definition OutfitGroup_begin :: "nat \<Rightarrow> OutfitGroup \<Rightarrow> iterator" where
  "OutfitGroup_begin this g = iterator_at this g True"

definition OutfitGroup_end :: "nat \<Rightarrow> OutfitGroup \<Rightarrow> iterator" where
  "OutfitGroup_end this g = iterator_at this g False"

text \<open>
  \<open>operator++\<close>, for an iterator that is not exhausted: it steps within the ledger, and
  at the end of the ledger to the next item, or sets \<open>isEnd\<close> after the last item.
\<close>

definition operator_inc :: "OutfitGroup \<Rightarrow> iterator \<Rightarrow> iterator" where
  "operator_inc g it =
     (let inner = (fst (innerIter it), Suc (snd (innerIter it)))
      in if snd inner = length (snd (g ! outerIter it))
         then (if Suc (outerIter it) = length g
               then it\<lparr>outerIter := Suc (outerIter it), innerIter := inner, isEnd := True\<rparr>
               else it\<lparr>outerIter := Suc (outerIter it), innerIter := (Suc (outerIter it), 0)\<rparr>)
         else it\<lparr>innerIter := inner\<rparr>)"

definition operator_ne :: "iterator \<Rightarrow> iterator \<Rightarrow> bool" where
  "operator_ne a b =
     (if isEnd a \<and> isEnd b then False
      else myGroup a \<noteq> myGroup b \<or> outerIter a \<noteq> outerIter b \<or> innerIter a \<noteq> innerIter b)"

definition operator_eq :: "iterator \<Rightarrow> iterator \<Rightarrow> bool" where
  "operator_eq a b = (outerIter a = outerIter b \<and> innerIter a = innerIter b)"

section \<open>The cost of a worn outfit\<close>

subsection \<open>Doubles\<close>

text \<open>
  The cost functions compute in \<open>double\<close>. A finite double is an integer mantissa
  times a power of two, and each arithmetic operation of IEEE 754 binary64 returns the
  exact result rounded to a mantissa of 53 bits, to the nearest such value and to the
  even mantissa in a tie. The model has no infinities, no NaN and no bound on the
  exponent: with an \<open>int\<close> for the wear and an \<open>int64_t\<close> for the cost, no operation
  of the cost functions overflows or reaches the subnormal range. Each operation is
  rounded on its own, as the SSE2 arithmetic of x86-64 does.
\<close>

datatype double = Double (mantissa: int) (exponent: int)

text \<open>\<open>m / 2^k\<close> rounded to the nearest integer, a tie going to the even one.\<close>

definition round_to_even :: "int \<Rightarrow> nat \<Rightarrow> int" where
  "round_to_even m k =
     (let q = m div 2 ^ k; r = m mod 2 ^ k
      in if 2 * r < 2 ^ k then q
         else if 2 ^ k < 2 * r then q + 1
         else if even q then q else q + 1)"

text \<open>Rounding an exact result to 53 bits.\<close>

definition round_double :: "double \<Rightarrow> double" where
  "round_double d =
     (let k = bitlen \<bar>mantissa d\<bar> - 53
      in if k \<le> 0 then d
         else Double (round_to_even (mantissa d) (nat k)) (exponent d + k))"

text \<open>The conversion of an integer to \<open>double\<close>.\<close>

definition double_of_int :: "int \<Rightarrow> double" where
  "double_of_int n = round_double (Double n 0)"

definition double_mult :: "double \<Rightarrow> double \<Rightarrow> double" where
  "double_mult a b = round_double (Double (mantissa a * mantissa b) (exponent a + exponent b))"

text \<open>Two doubles brought to their smaller exponent.\<close>

definition aligned :: "double \<Rightarrow> double \<Rightarrow> int \<times> int \<times> int" where
  "aligned a b =
     (let e = min (exponent a) (exponent b)
      in (mantissa a * 2 ^ nat (exponent a - e), mantissa b * 2 ^ nat (exponent b - e), e))"

definition double_minus :: "double \<Rightarrow> double \<Rightarrow> double" where
  "double_minus a b = (case aligned a b of (x, y, e) \<Rightarrow> round_double (Double (x - y) e))"

definition double_less :: "double \<Rightarrow> double \<Rightarrow> bool" where
  "double_less a b = (case aligned a b of (x, y, e) \<Rightarrow> x < y)"

text \<open>\<open>std::max(a, b)\<close> is \<open>(a < b) ? b : a\<close>.\<close>

definition double_max :: "double \<Rightarrow> double \<Rightarrow> double" where
  "double_max a b = (if double_less a b then b else a)"

text \<open>A double without its fraction: the integer next to it towards zero.\<close>

definition truncation :: "double \<Rightarrow> int" where
  "truncation d =
     (if 0 \<le> exponent d then mantissa d * 2 ^ nat (exponent d)
      else sgn (mantissa d) * (\<bar>mantissa d\<bar> div 2 ^ nat (- exponent d)))"

text \<open>
  \<open>static_cast<int64_t>\<close> drops the fraction. When the result does not fit an
  \<open>int64_t\<close>, which C++ leaves undefined, the conversion instruction of x86-64
  (\<open>cvttsd2si\<close>) returns \<open>-2^63\<close>.
\<close>

definition to_int64 :: "double \<Rightarrow> int" where
  "to_int64 d =
     (if - 9223372036854775808 \<le> truncation d \<and> truncation d \<le> 9223372036854775807
      then truncation d
      else - 9223372036854775808)"

text \<open>The real number a double stands for.\<close>

definition value_of :: "double \<Rightarrow> real" where
  "value_of d = of_int (mantissa d) * 2 powi exponent d"

subsection \<open>The constants and the three cost functions\<close>

text \<open>
  The literals \<open>0.40\<close>, \<open>0.90\<close> and \<open>0.0020\<close> are the doubles nearest to these
  decimal numbers: \<open>0x1.999999999999ap-2\<close>, \<open>0x1.ccccccccccccdp-1\<close> and
  \<open>0x1.0624dd2f1a9fcp-9\<close>.
\<close>

definition DEFAULT_MIN_PRICE :: double where
  "DEFAULT_MIN_PRICE = Double 7205759403792794 (- 54)"

definition DEFAULT_MAX_PRICE :: double where
  "DEFAULT_MAX_PRICE = Double 8106479329266893 (- 53)"

definition DEFAULT_DEPRECIATION_RATE :: double where
  "DEFAULT_DEPRECIATION_RATE = Double 4611686018427388 (- 61)"

text \<open>
  Modelled from the spec: the class \<open>Outfit\<close> is not among the sources. The cost
  function uses its base cost \<open>Cost()\<close>, an \<open>int64_t\<close>, its category label
  \<open>Category()\<close> and its numeric attributes \<open>Get(name)\<close>, of which \<open>"ageless"\<close>
  is read as a flag (any value other than 0).
\<close>

record Outfit =
  Cost :: int
  Category :: string
  Get :: "string \<Rightarrow> double"

text \<open>
  \<open>CostFunction(int wear, double minValue, double maxValue, double lossPerDay)\<close>. The
  difference \<open>wear - 1\<close> is computed in \<open>int\<close> before it is converted: it is exact
  for every wear but the least \<open>int\<close>, \<open>-2^31\<close>, where it wraps around to
  \<open>2^31 - 1\<close>.
\<close>

definition CostFunction_curve :: "int \<Rightarrow> double \<Rightarrow> double \<Rightarrow> double \<Rightarrow> double" where
  "CostFunction_curve wear minValue maxValue lossPerDay =
     (if wear = 0 then Double 1 0
      else double_max minValue
             (double_minus maxValue
                (double_mult lossPerDay
                   (double_of_int (if wear = - 2147483648 then 2147483647 else wear - 1)))))"

text \<open>\<open>CostFunction(int wear)\<close>.\<close>

definition CostFunction_rate :: "int \<Rightarrow> double" where
  "CostFunction_rate wear =
     CostFunction_curve wear DEFAULT_MIN_PRICE DEFAULT_MAX_PRICE DEFAULT_DEPRECIATION_RATE"

text \<open>\<open>CostFunction(const Outfit *outfit, int wear)\<close>.\<close>

definition CostFunction :: "Outfit \<Rightarrow> int \<Rightarrow> int" where
  "CostFunction outfit wear =
     (let wear' = (if mantissa (Get outfit ''ageless'') \<noteq> 0 \<or> Category outfit = ''Ammunition''
                   then 0 else wear)
      in to_int64 (double_mult (double_of_int (Cost outfit)) (CostFunction_rate wear')))"

text \<open>
  A real number rounded to the nearest integer, a tie going to the even one: what
  \<open>round_to_even\<close> computes, used to reason about rounding by value.
\<close>

definition nearest_even :: "real \<Rightarrow> int" where
  "nearest_even x =
     (if x - of_int \<lfloor>x\<rfloor> < 1 / 2 then \<lfloor>x\<rfloor>
      else if 1 / 2 < x - of_int \<lfloor>x\<rfloor> then \<lfloor>x\<rfloor> + 1
      else if even \<lfloor>x\<rfloor> then \<lfloor>x\<rfloor> else \<lfloor>x\<rfloor> + 1)"

text \<open>
  Rounding by value: a number whose magnitude lies between \<open>2^(p-1)\<close> and \<open>2^p\<close> is
  rounded to a multiple of \<open>2^(p-53)\<close>. For a double, \<open>p\<close> is its \<open>binade\<close>.
\<close>

definition round_at :: "int \<Rightarrow> real \<Rightarrow> real" where
  "round_at p v = of_int (nearest_even (v / 2 powi (p - 53))) * 2 powi (p - 53)"

definition binade :: "double \<Rightarrow> int" where
  "binade d = bitlen \<bar>mantissa d\<bar> + exponent d"

section \<open>Properties\<close>

subsection \<open>The arithmetic of int\<close>

lemma int32_id: "is_int32 x \<Longrightarrow> int32 x = x"
  by (simp add: is_int32_def int32_def)

lemma is_int32_int32: "is_int32 (int32 x)"
proof -
  have "0 \<le> (x + 2147483648) mod 4294967296" "(x + 2147483648) mod 4294967296 < 4294967296"
    by simp_all
  then show ?thesis unfolding is_int32_def int32_def by linarith
qed

lemma int32_le: "0 \<le> x \<Longrightarrow> int32 x \<le> x"
proof -
  assume "0 \<le> x"
  then have "(x + 2147483648) mod 4294967296 \<le> x + 2147483648"
    by (simp add: zmod_le_nonneg_dividend)
  then show ?thesis by (simp add: int32_def)
qed

lemma int32_add_left: "int32 (int32 a + b) = int32 (a + b)"
proof -
  have "(a + 2147483648) mod 4294967296 + b = ((a + 2147483648) mod 4294967296 + b)" by simp
  have "((a + 2147483648) mod 4294967296 - 2147483648 + b + 2147483648) mod 4294967296
      = ((a + 2147483648) mod 4294967296 + b) mod 4294967296"
    by (simp add: algebra_simps)
  also have "\<dots> = (a + 2147483648 + b) mod 4294967296" by (rule mod_add_left_eq)
  finally show ?thesis by (simp add: int32_def algebra_simps)
qed

lemma int32_shift_inj:
  assumes "is_int32 x" "is_int32 y" "int32 (x + v) = int32 (y + v)"
  shows "x = y"
proof (rule ccontr)
  assume ne: "x \<noteq> y"
  have "(x + v + 2147483648) mod 4294967296 = (y + v + 2147483648) mod 4294967296"
    using assms(3) unfolding int32_def by linarith
  then have "4294967296 dvd (x + v + 2147483648) - (y + v + 2147483648)"
    by (simp only: mod_eq_dvd_iff)
  moreover have "(x + v + 2147483648) - (y + v + 2147483648) = x - y" by linarith
  ultimately have d: "4294967296 dvd x - y" by (simp only:)
  have "x - y \<noteq> 0" using ne by linarith
  then have "\<bar>4294967296 :: int\<bar> \<le> \<bar>x - y\<bar>" using d by (rule dvd_imp_le_int)
  then show False using assms(1,2) unfolding is_int32_def by linarith
qed

lemma int32_shift_back: "is_int32 w \<Longrightarrow> int32 (int32 (w - v) + v) = w"
  using int32_add_left [of "w - v" v] by (simp add: int32_id)

lemma fold_int32_total:
  "fold (\<lambda>it count. int32 (count + snd it)) inner (int32 c) = int32 (c + sum_list (map snd inner))"
proof (induction inner arbitrary: c)
  case Nil
  then show ?case by simp
next
  case (Cons e inner)
  have "fold (\<lambda>it count. int32 (count + snd it)) (e # inner) (int32 c) =
      fold (\<lambda>it count. int32 (count + snd it)) inner (int32 (c + snd e))"
    by (simp add: int32_add_left)
  also have "\<dots> = int32 (c + snd e + sum_list (map snd inner))" by (rule Cons.IH)
  finally show ?case by (simp add: add.assoc)
qed

lemma GetTotalCount_total_units: "GetTotalCount g outfit = int32 (total_units g outfit)"
proof (cases "map_find g outfit")
  case None
  then show ?thesis by (simp add: GetTotalCount_def total_units_def int32_def)
next
  case (Some inner)
  have "int32 0 = 0" by (simp add: int32_def)
  then have "fold (\<lambda>it count. int32 (count + snd it)) inner 0 = int32 (0 + sum_list (map snd inner))"
    using fold_int32_total [of inner 0] by simp
  then show ?thesis using Some by (simp add: GetTotalCount_def total_units_def)
qed

lemma GetTotalCount_in_range:
  "0 \<le> total_units g outfit \<Longrightarrow> total_units g outfit \<le> 2147483647 \<Longrightarrow>
   GetTotalCount g outfit = total_units g outfit"
  by (simp add: GetTotalCount_total_units int32_id is_int32_def)

lemma GetTotalCount_le_total_units:
  "0 \<le> total_units g outfit \<Longrightarrow> GetTotalCount g outfit \<le> total_units g outfit"
  by (simp add: GetTotalCount_total_units int32_le)

subsection \<open>The map operations\<close>

lemma map_of_assign: "map_of (map_assign k v m) = (map_of m)(k \<mapsto> v)"
  by (induction m) auto

lemma map_of_erase: "map_of (map_erase k m) = (map_of m)(k := None)"
  by (induction m) (auto simp: fun_eq_iff)

lemma map_erase_filter: "map_erase k m = filter (\<lambda>e. fst e \<noteq> k) m"
  by (induction m) auto

lemma set_erase: "set (map_erase k m) = {e \<in> set m. fst e \<noteq> k}"
  by (simp add: map_erase_filter)

lemma set_assign_subset: "set (map_assign k v m) \<subseteq> insert (k, v) (set m)"
  by (induction m) (auto split: if_splits)

lemma is_map_Cons: "is_map (e # m) = ((\<forall>x\<in>set m. fst e < fst x) \<and> is_map m)"
  by (simp add: is_map_def)

lemma is_map_assign: "is_map m \<Longrightarrow> is_map (map_assign k v m)"
proof (induction m)
  case Nil
  then show ?case by (simp add: is_map_def)
next
  case (Cons e m)
  obtain k' v' where e: "e = (k', v')" by (cases e)
  from Cons.prems have gt: "\<forall>x\<in>set m. k' < fst x" and tl: "is_map m"
    by (simp_all add: is_map_Cons e)
  show ?case
  proof (cases "k < k'")
    case True
    have "\<forall>x\<in>set m. k < fst x" using gt True by (meson less_trans)
    then show ?thesis using True gt tl e by (simp add: is_map_Cons)
  next
    case False
    show ?thesis
    proof (cases "k = k'")
      case True
      then show ?thesis using gt tl e by (simp add: is_map_Cons)
    next
      case ne: False
      have "\<forall>x\<in>set (map_assign k v m). k' < fst x"
      proof
        fix x assume "x \<in> set (map_assign k v m)"
        then have "x = (k, v) \<or> x \<in> set m" using set_assign_subset [of k v m] by blast
        then show "k' < fst x" using gt False ne by auto
      qed
      then show ?thesis using False ne e Cons.IH [OF tl] by (simp add: is_map_Cons)
    qed
  qed
qed

lemma is_map_erase: "is_map m \<Longrightarrow> is_map (map_erase k m)"
  by (simp add: is_map_def map_erase_filter sorted_wrt_filter sorted_wrt_map)

lemma map_of_None_is_map: "is_map ((k, v) # m) \<Longrightarrow> map_of m k = None"
  by (auto simp: is_map_def map_of_eq_None_iff)

lemma units_in_assign: "units_in (map_assign k v m) w = (if w = k then v else units_in m w)"
  by (simp add: units_in_def map_find_def map_of_assign)

lemma units_in_erase: "units_in (map_erase k m) w = (if w = k then 0 else units_in m w)"
  by (simp add: units_in_def map_find_def map_of_erase)

lemma map_erase_absent: "map_of m k = None \<Longrightarrow> map_erase k m = m"
  by (induction m) (auto split: if_splits)

lemma total_assign:
  "is_map m \<Longrightarrow> sum_list (map snd (map_assign k v m)) = sum_list (map snd m) - units_in m k + v"
proof (induction m)
  case Nil
  then show ?case by (simp add: units_in_def map_find_def)
next
  case (Cons e m)
  obtain k' v' where e: "e = (k', v')" by (cases e)
  have tl: "is_map m" using Cons.prems by (simp add: is_map_Cons)
  show ?case
  proof (cases "k < k'")
    case True
    then have "map_of (e # m) k = None"
      using Cons.prems e by (auto simp: is_map_def map_of_eq_None_iff)
    then show ?thesis using True e by (simp add: units_in_def map_find_def)
  next
    case False
    show ?thesis
    proof (cases "k = k'")
      case True
      then show ?thesis using e by (simp add: units_in_def map_find_def)
    next
      case ne: False
      then show ?thesis using False Cons.IH [OF tl] e by (simp add: units_in_def map_find_def)
    qed
  qed
qed

lemma total_erase:
  "is_map m \<Longrightarrow> sum_list (map snd (map_erase k m)) = sum_list (map snd m) - units_in m k"
proof (induction m)
  case Nil
  then show ?case by (simp add: units_in_def map_find_def)
next
  case (Cons e m)
  obtain k' v' where e: "e = (k', v')" by (cases e)
  have tl: "is_map m" using Cons.prems by (simp add: is_map_Cons)
  show ?case
  proof (cases "k = k'")
    case True
    then have "map_of m k = None" using Cons.prems e map_of_None_is_map by fast
    then have "map_erase k m = m" by (rule map_erase_absent)
    then show ?thesis using True e by (simp add: units_in_def map_find_def)
  next
    case False
    then show ?thesis using Cons.IH [OF tl] e by (simp add: units_in_def map_find_def)
  qed
qed

lemma positive_Cons: "positive (e # es) = (0 < snd e \<and> positive es)"
  by (simp add: positive_def)

lemma drain_most_worn_allotment:
  assumes "positive es" "\<forall>e\<in>set es. snd e \<le> 2147483647"
    and "0 \<le> removed" "removed < count" "count \<le> 2147483647"
  shows "drain_most_worn outfit count es ((inner, to, removed), toErase) =
     ((write_back (allotment (count - removed) es) inner,
       deposit_all outfit (allotment (count - removed) es) to,
       removed + moved_total (allotment (count - removed) es)),
      toErase @ drained (allotment (count - removed) es))"
  using assms
proof (induction es arbitrary: inner to removed toErase)
  case Nil
  then show ?case
    by (simp add: write_back_def deposit_all_def moved_total_def drained_def)
next
  case (Cons e rest)
  obtain wear q where e: "e = (wear, q)" by (cases e)
  let ?t = "min q (count - removed)"
  have q: "0 < q" "q \<le> 2147483647" and rest: "positive rest" "\<forall>e\<in>set rest. snd e \<le> 2147483647"
    using Cons.prems(1,2) e by (simp_all add: positive_Cons)
  have t: "0 < ?t" "?t \<le> q" "removed + ?t \<le> count" using q Cons.prems(4) by simp_all
  have "is_int32 (count - removed)" "is_int32 (removed + ?t)" "is_int32 (q - ?t)"
    unfolding is_int32_def using t q Cons.prems(3,4,5) by linarith+
  then have wanted: "int32 (count - removed) = count - removed"
    and removed: "int32 (removed + ?t) = removed + ?t"
    and left: "int32 (q - ?t) = q - ?t"
    by (simp_all only: int32_id)
  have body: "drain_most_worn outfit count (e # rest) ((inner, to, removed), toErase) =
      (if count > removed + ?t \<and> rest \<noteq> []
       then drain_most_worn outfit count rest
              ((map_assign wear (q - ?t) inner, deposit to outfit ?t wear, removed + ?t),
               (if q - ?t = 0 then toErase @ [wear] else toErase))
       else ((map_assign wear (q - ?t) inner, deposit to outfit ?t wear, removed + ?t),
             (if q - ?t = 0 then toErase @ [wear] else toErase)))"
    by (simp only: e drain_most_worn.simps Let_def wanted removed left)
  have n: "count - (removed + ?t) = count - removed - ?t" by simp
  have first: "allotment (count - removed) (e # rest) =
      (wear, q - ?t, ?t) # allotment (count - removed - ?t) rest"
    using Cons.prems(4) e by simp
  show ?case
  proof (cases "removed + ?t < count \<and> rest \<noteq> []")
    case True
    then have less: "removed + ?t < count" by simp
    have nonneg: "0 \<le> removed + ?t" using t Cons.prems(3) by simp
    show ?thesis
      unfolding body first
      using True Cons.IH [OF rest nonneg less Cons.prems(5)]
      by (simp add: n write_back_def deposit_all_def moved_total_def drained_def)
  next
    case False
    then have "allotment (count - removed - ?t) rest = []"
      by (cases rest) auto
    then show ?thesis
      unfolding body first
      using False
      by (simp add: write_back_def deposit_all_def moved_total_def drained_def)
  qed
qed

lemma drain_least_worn_allotment:
  assumes "positive es" "\<forall>e\<in>set es. snd e \<le> 2147483647"
    and "0 \<le> removed" "count \<le> 2147483647"
  shows "drain_least_worn outfit count es (inner, to, removed) =
     (write_back_erasing (allotment (count - removed) es) inner,
      deposit_all outfit (allotment (count - removed) es) to,
      removed + moved_total (allotment (count - removed) es))"
  using assms
proof (induction es arbitrary: inner to removed)
  case Nil
  then show ?case
    by (simp add: write_back_erasing_def deposit_all_def moved_total_def)
next
  case (Cons e rest)
  obtain wear q where e: "e = (wear, q)" by (cases e)
  let ?t = "min q (count - removed)"
  have q: "0 < q" "q \<le> 2147483647" and rest: "positive rest" "\<forall>e\<in>set rest. snd e \<le> 2147483647"
    using Cons.prems(1,2) e by (simp_all add: positive_Cons)
  show ?case
  proof (cases "removed < count")
    case True
    have t: "0 < ?t" "?t \<le> q" "removed + ?t \<le> count" using q True by simp_all
    have "is_int32 (count - removed)" "is_int32 (removed + ?t)" "is_int32 (q - ?t)"
      unfolding is_int32_def using t q Cons.prems(3,4) True by linarith+
    then have wanted: "int32 (count - removed) = count - removed"
      and removed: "int32 (removed + ?t) = removed + ?t"
      and left: "int32 (q - ?t) = q - ?t"
      by (simp_all only: int32_id)
    have body: "drain_least_worn outfit count (e # rest) (inner, to, removed) =
        drain_least_worn outfit count rest
          ((if q - ?t = 0 then map_erase wear (map_assign wear (q - ?t) inner)
            else map_assign wear (q - ?t) inner),
           deposit to outfit ?t wear, removed + ?t)"
      by (simp only: e drain_least_worn.simps Let_def wanted removed left True if_True)
    have n: "count - (removed + ?t) = count - removed - ?t" by simp
    have first: "allotment (count - removed) (e # rest) =
        (wear, q - ?t, ?t) # allotment (count - removed - ?t) rest"
      using True e by simp
    have nonneg: "0 \<le> removed + ?t" using t Cons.prems(3) by simp
    show ?thesis
      unfolding body first
      using Cons.IH [OF rest nonneg Cons.prems(4)]
      by (simp add: n write_back_erasing_def deposit_all_def moved_total_def)
  next
    case False
    then show ?thesis
      using e by (simp add: write_back_erasing_def deposit_all_def moved_total_def)
  qed
qed

subsection \<open>Allotments\<close>

lemma allotment_none_wanted: "n \<le> 0 \<Longrightarrow> allotment n es = []"
  by (cases es) auto

lemma positive_total: "positive es \<Longrightarrow> 0 \<le> sum_list (map snd es)"
  by (induction es) (auto simp: positive_def)

lemma moved_total_allotment:
  "positive es \<Longrightarrow> 0 \<le> n \<Longrightarrow> moved_total (allotment n es) = min n (sum_list (map snd es))"
proof (induction es arbitrary: n)
  case Nil
  then show ?case by (simp add: moved_total_def)
next
  case (Cons e rest)
  obtain wear q where e: "e = (wear, q)" by (cases e)
  have pos: "positive rest" and q: "0 < q" using Cons.prems e by (simp_all add: positive_def)
  have tot: "0 \<le> sum_list (map snd rest)" using pos by (rule positive_total)
  show ?case
  proof (cases "0 < n")
    case True
    have "moved_total (allotment (n - min q n) rest) = min (n - min q n) (sum_list (map snd rest))"
      using Cons.IH [OF pos, of "n - min q n"] by simp
    then show ?thesis using True e tot q by (simp add: moved_total_def min_def)
  next
    case False
    then show ?thesis using Cons.prems e tot q by (simp add: moved_total_def)
  qed
qed

lemma allotment_entry:
  "positive es \<Longrightarrow> (wear, left, moved) \<in> set (allotment n es) \<Longrightarrow>
   0 < moved \<and> 0 \<le> left \<and> (wear, left + moved) \<in> set es"
proof (induction es arbitrary: n)
  case Nil
  then show ?case by simp
next
  case (Cons e rest)
  obtain w q where e: "e = (w, q)" by (cases e)
  have pos: "positive rest" and q: "0 < q" using Cons.prems e by (simp_all add: positive_def)
  show ?case
  proof (cases "0 < n")
    case True
    then have "(wear, left, moved) = (w, q - min q n, min q n)
      \<or> (wear, left, moved) \<in> set (allotment (n - min q n) rest)"
      using Cons.prems(2) e by simp
    then show ?thesis
    proof
      assume "(wear, left, moved) = (w, q - min q n, min q n)"
      then show ?thesis using True q e by auto
    next
      assume "(wear, left, moved) \<in> set (allotment (n - min q n) rest)"
      then show ?thesis using Cons.IH [OF pos] by auto
    qed
  next
    case False
    then show ?thesis using Cons.prems(2) e by simp
  qed
qed

lemma allotment_keys: "fst ` set (allotment n es) \<subseteq> fst ` set es"
proof (induction es arbitrary: n)
  case Nil
  then show ?case by simp
next
  case (Cons e rest)
  obtain w q where e: "e = (w, q)" by (cases e)
  show ?case using Cons.IH [of "n - min q n"] e by auto
qed

lemma allotment_distinct: "distinct (map fst es) \<Longrightarrow> distinct (map fst (allotment n es))"
proof (induction es arbitrary: n)
  case Nil
  then show ?case by simp
next
  case (Cons e rest)
  obtain w q where e: "e = (w, q)" by (cases e)
  have "w \<notin> fst ` set (allotment (n - min q n) rest)"
    using allotment_keys [of "n - min q n" rest] Cons.prems e by auto
  then show ?case using Cons.IH [of "n - min q n"] Cons.prems e by simp
qed

subsection \<open>Writing a plan back to the ledger\<close>

lemma map_of_write_back:
  "distinct (map fst p) \<Longrightarrow>
   map_of (write_back p inner) w =
     (case map_of p w of None \<Rightarrow> map_of inner w | Some (left, moved) \<Rightarrow> Some left)"
proof (induction p arbitrary: inner)
  case Nil
  then show ?case by (simp add: write_back_def)
next
  case (Cons x p)
  obtain k l t where x: "x = (k, l, t)" by (cases x)
  have d: "distinct (map fst p)" and k: "map_of p k = None"
    using Cons.prems x by (simp_all add: map_of_eq_None_iff)
  have step: "write_back (x # p) inner = write_back p (map_assign k l inner)"
    by (simp add: write_back_def x)
  show ?case
    unfolding step
    using Cons.IH [OF d, of "map_assign k l inner"] k
    by (simp add: x map_of_assign split: option.split)
qed

lemma map_of_fold_erase:
  "map_of (fold map_erase ks m) w = (if w \<in> set ks then None else map_of m w)"
  by (induction ks arbitrary: m) (simp_all add: map_of_erase)

lemma drained_iff:
  "distinct (map fst p) \<Longrightarrow> w \<in> set (drained p) \<longleftrightarrow> (\<exists>t. map_of p w = Some (0, t))"
proof -
  assume d: "distinct (map fst p)"
  have "w \<in> set (drained p) \<longleftrightarrow> (\<exists>t. (w, 0, t) \<in> set p)"
    by (force simp: drained_def)
  then show ?thesis using d by (simp add: map_of_eq_Some_iff)
qed

lemma map_of_most_worn:
  assumes "distinct (map fst p)"
  shows "map_of (fold map_erase (drained p) (write_back p inner)) w =
     (case map_of p w of
        None \<Rightarrow> map_of inner w
      | Some (left, moved) \<Rightarrow> if left = 0 then None else Some left)"
proof (cases "map_of p w")
  case None
  then have "w \<notin> set (drained p)" using drained_iff [OF assms] by simp
  then show ?thesis using None by (simp add: map_of_fold_erase map_of_write_back [OF assms])
next
  case (Some lt)
  obtain l t where lt: "lt = (l, t)" by (cases lt)
  have "w \<in> set (drained p) \<longleftrightarrow> l = 0" using drained_iff [OF assms] Some lt by simp
  then show ?thesis using Some lt by (simp add: map_of_fold_erase map_of_write_back [OF assms])
qed

lemma map_of_least_worn:
  "distinct (map fst p) \<Longrightarrow>
   map_of (write_back_erasing p inner) w =
     (case map_of p w of
        None \<Rightarrow> map_of inner w
      | Some (left, moved) \<Rightarrow> if left = 0 then None else Some left)"
proof (induction p arbitrary: inner)
  case Nil
  then show ?case by (simp add: write_back_erasing_def)
next
  case (Cons x p)
  obtain k l t where x: "x = (k, l, t)" by (cases x)
  have d: "distinct (map fst p)" and k: "map_of p k = None"
    using Cons.prems x by (simp_all add: map_of_eq_None_iff)
  let ?m = "if l = 0 then map_erase k (map_assign k l inner) else map_assign k l inner"
  have step: "write_back_erasing (x # p) inner = write_back_erasing p ?m"
    by (simp add: write_back_erasing_def x)
  show ?case
    unfolding step
    using Cons.IH [OF d, of ?m] k
    by (simp add: x map_of_assign map_of_erase split: option.split)
qed

lemma is_map_write_back: "is_map inner \<Longrightarrow> is_map (write_back p inner)"
proof (induction p arbitrary: inner)
  case Nil
  then show ?case by (simp add: write_back_def)
next
  case (Cons x p)
  obtain k l t where x: "x = (k, l, t)" by (cases x)
  have step: "write_back (x # p) inner = write_back p (map_assign k l inner)"
    by (simp add: write_back_def x)
  have "is_map (map_assign k l inner)" using Cons.prems by (rule is_map_assign)
  then show ?case unfolding step by (rule Cons.IH)
qed

lemma is_map_fold_erase: "is_map m \<Longrightarrow> is_map (fold map_erase ks m)"
proof (induction ks arbitrary: m)
  case Nil
  then show ?case by simp
next
  case (Cons k ks)
  have "is_map (map_erase k m)" using Cons.prems by (rule is_map_erase)
  then have "is_map (fold map_erase ks (map_erase k m))" by (rule Cons.IH)
  then show ?case by simp
qed

lemma is_map_write_back_erasing: "is_map inner \<Longrightarrow> is_map (write_back_erasing p inner)"
proof (induction p arbitrary: inner)
  case Nil
  then show ?case by (simp add: write_back_erasing_def)
next
  case (Cons x p)
  obtain k l t where x: "x = (k, l, t)" by (cases x)
  let ?m = "if l = 0 then map_erase k (map_assign k l inner) else map_assign k l inner"
  have step: "write_back_erasing (x # p) inner = write_back_erasing p ?m"
    by (simp add: write_back_erasing_def x)
  have "is_map ?m" using Cons.prems by (simp add: is_map_assign is_map_erase)
  then show ?case unfolding step by (rule Cons.IH)
qed

lemma moved_total_Cons: "moved_total ((k, l, t) # p) = t + moved_total p"
  by (simp add: moved_total_def)

lemma total_write_back:
  "is_map inner \<Longrightarrow> distinct (map fst p) \<Longrightarrow>
   \<forall>x\<in>set p. units_in inner (fst x) = fst (snd x) + snd (snd x) \<Longrightarrow>
   sum_list (map snd (write_back p inner)) = sum_list (map snd inner) - moved_total p"
proof (induction p arbitrary: inner)
  case Nil
  then show ?case by (simp add: write_back_def moved_total_def)
next
  case (Cons x p)
  obtain k l t where x: "x = (k, l, t)" by (cases x)
  let ?m = "map_assign k l inner"
  have step: "write_back (x # p) inner = write_back p ?m"
    by (simp add: write_back_def x)
  have m: "is_map ?m" using Cons.prems(1) by (rule is_map_assign)
  have d: "distinct (map fst p)" and k: "k \<notin> fst ` set p"
    using Cons.prems(2) x by simp_all
  have live: "\<forall>y\<in>set p. units_in ?m (fst y) = fst (snd y) + snd (snd y)"
  proof
    fix y assume y: "y \<in> set p"
    then have "fst y \<noteq> k" using k by auto
    then show "units_in ?m (fst y) = fst (snd y) + snd (snd y)"
      using Cons.prems(3) y by (simp add: units_in_assign)
  qed
  have here: "units_in inner k = l + t" using Cons.prems(3) x by simp
  have "sum_list (map snd ?m) = sum_list (map snd inner) - t"
    using total_assign [OF Cons.prems(1), of k l] here by simp
  then show ?case
    unfolding step using Cons.IH [OF m d live] by (simp add: x moved_total_Cons)
qed

lemma total_fold_erase:
  "is_map m \<Longrightarrow> \<forall>k\<in>set ks. units_in m k = 0 \<Longrightarrow>
   sum_list (map snd (fold map_erase ks m)) = sum_list (map snd m)"
proof (induction ks arbitrary: m)
  case Nil
  then show ?case by simp
next
  case (Cons k ks)
  have m: "is_map (map_erase k m)" using Cons.prems(1) by (rule is_map_erase)
  have z: "\<forall>j\<in>set ks. units_in (map_erase k m) j = 0"
    using Cons.prems(2) by (simp add: units_in_erase)
  have "sum_list (map snd (map_erase k m)) = sum_list (map snd m)"
    using total_erase [OF Cons.prems(1), of k] Cons.prems(2) by simp
  then show ?case using Cons.IH [OF m z] by simp
qed

lemma units_in_write_back_drained:
  assumes "distinct (map fst p)" "k \<in> set (drained p)"
  shows "units_in (write_back p inner) k = 0"
proof -
  obtain t where "map_of p k = Some (0, t)" using drained_iff [OF assms(1)] assms(2) by blast
  then show ?thesis
    by (simp add: units_in_def map_find_def map_of_write_back [OF assms(1)])
qed

lemma total_most_worn:
  assumes "is_map inner" "distinct (map fst p)"
    "\<forall>x\<in>set p. units_in inner (fst x) = fst (snd x) + snd (snd x)"
  shows "sum_list (map snd (fold map_erase (drained p) (write_back p inner))) =
         sum_list (map snd inner) - moved_total p"
proof -
  have "is_map (write_back p inner)" using assms(1) by (rule is_map_write_back)
  moreover have "\<forall>k\<in>set (drained p). units_in (write_back p inner) k = 0"
    using units_in_write_back_drained [OF assms(2)] by blast
  ultimately have "sum_list (map snd (fold map_erase (drained p) (write_back p inner))) =
      sum_list (map snd (write_back p inner))"
    by (rule total_fold_erase)
  then show ?thesis using total_write_back [OF assms] by simp
qed

lemma total_least_worn:
  "is_map inner \<Longrightarrow> distinct (map fst p) \<Longrightarrow>
   \<forall>x\<in>set p. units_in inner (fst x) = fst (snd x) + snd (snd x) \<Longrightarrow>
   sum_list (map snd (write_back_erasing p inner)) = sum_list (map snd inner) - moved_total p"
proof (induction p arbitrary: inner)
  case Nil
  then show ?case by (simp add: write_back_erasing_def moved_total_def)
next
  case (Cons x p)
  obtain k l t where x: "x = (k, l, t)" by (cases x)
  let ?a = "map_assign k l inner"
  let ?m = "if l = 0 then map_erase k ?a else ?a"
  have step: "write_back_erasing (x # p) inner = write_back_erasing p ?m"
    by (simp add: write_back_erasing_def x)
  have a: "is_map ?a" using Cons.prems(1) by (rule is_map_assign)
  have m: "is_map ?m" using a is_map_erase [OF a, of k] by (cases "l = 0") simp_all
  have d: "distinct (map fst p)" and k: "k \<notin> fst ` set p"
    using Cons.prems(2) x by simp_all
  have live: "\<forall>y\<in>set p. units_in ?m (fst y) = fst (snd y) + snd (snd y)"
  proof
    fix y assume y: "y \<in> set p"
    then have "fst y \<noteq> k" using k by auto
    then show "units_in ?m (fst y) = fst (snd y) + snd (snd y)"
      using Cons.prems(3) y by (simp add: units_in_assign units_in_erase)
  qed
  have here: "units_in inner k = l + t" using Cons.prems(3) x by simp
  have ta: "sum_list (map snd ?a) = sum_list (map snd inner) - t"
    using total_assign [OF Cons.prems(1), of k l] here by simp
  have "sum_list (map snd ?m) = sum_list (map snd inner) - t"
  proof (cases "l = 0")
    case True
    then show ?thesis using total_erase [OF a, of k] ta by (simp add: units_in_assign)
  next
    case False
    then show ?thesis using ta by simp
  qed
  then show ?case
    unfolding step using Cons.IH [OF m d live] by (simp add: x moved_total_Cons)
qed

subsection \<open>The ledger after a removal\<close>

lemma is_map_distinct: "is_map m \<Longrightarrow> distinct (map fst m)"
  by (simp add: is_map_def strict_sorted_iff)

lemma positive_map_of:
  "distinct (map fst m) \<Longrightarrow> positive m = (\<forall>w q. map_of m w = Some q \<longrightarrow> 0 < q)"
  by (auto simp: positive_def list_all_iff map_of_eq_Some_iff)

lemma positive_set: "set es = set inner \<Longrightarrow> positive es = positive inner"
  by (simp add: positive_def list_all_iff)

lemma units_in_member:
  "distinct (map fst m) \<Longrightarrow> (w, q) \<in> set m \<Longrightarrow> units_in m w = q"
  by (simp add: units_in_def map_find_def)

lemma allotment_live:
  assumes "is_map inner" "positive inner" "set es = set inner" "x \<in> set (allotment n es)"
  shows "units_in inner (fst x) = fst (snd x) + snd (snd x)"
    and "0 < snd (snd x)" and "0 \<le> fst (snd x)"
proof -
  obtain w l t where x: "x = (w, l, t)" by (cases x)
  have "positive es" using assms(2,3) positive_set by blast
  then have e: "0 < t \<and> 0 \<le> l \<and> (w, l + t) \<in> set es"
    using allotment_entry assms(4) x by blast
  then have "(w, l + t) \<in> set inner" using assms(3) by simp
  then show "units_in inner (fst x) = fst (snd x) + snd (snd x)"
    using units_in_member [OF is_map_distinct [OF assms(1)]] x by simp
  show "0 < snd (snd x)" and "0 \<le> fst (snd x)" using e x by simp_all
qed

lemma moved_at_member:
  "distinct (map fst p) \<Longrightarrow> (w, l, t) \<in> set p \<Longrightarrow> moved_at p w = t"
  by (simp add: moved_at_def)

lemma units_in_settled:
  assumes "is_map inner" "positive inner" "set es = set inner" "distinct (map fst es)"
    and final: "\<And>w. map_of final w =
      (case map_of (allotment n es) w of
         None \<Rightarrow> map_of inner w
       | Some (left, moved) \<Rightarrow> if left = 0 then None else Some left)"
  shows "units_in final w = units_in inner w - moved_at (allotment n es) w"
proof (cases "map_of (allotment n es) w")
  case None
  then show ?thesis by (simp add: units_in_def map_find_def final moved_at_def)
next
  case (Some lt)
  obtain l t where lt: "lt = (l, t)" by (cases lt)
  have "(w, l, t) \<in> set (allotment n es)" using Some lt by (simp add: map_of_SomeD)
  then have "units_in inner w = l + t"
    using allotment_live(1) [OF assms(1,2,3), of "(w, l, t)" n] by simp
  then show ?thesis using Some lt by (simp add: units_in_def map_find_def final moved_at_def)
qed

lemma positive_settled:
  assumes "is_map inner" "positive inner" "set es = set inner" "is_map final"
    and final: "\<And>w. map_of final w =
      (case map_of (allotment n es) w of
         None \<Rightarrow> map_of inner w
       | Some (left, moved) \<Rightarrow> if left = 0 then None else Some left)"
  shows "positive final"
proof -
  have "0 < q" if q: "map_of final w = Some q" for w q
  proof (cases "map_of (allotment n es) w")
    case None
    then have "map_of inner w = Some q" using q final by simp
    then show ?thesis
      using assms(2) positive_map_of [OF is_map_distinct [OF assms(1)]] by blast
  next
    case (Some lt)
    obtain l t where lt: "lt = (l, t)" by (cases lt)
    have "(w, l, t) \<in> set (allotment n es)" using Some lt by (simp add: map_of_SomeD)
    then have "0 \<le> l" using allotment_live(3) [OF assms(1,2,3), of "(w, l, t)" n] by simp
    moreover have "l \<noteq> 0 \<and> q = l" using q final [of w] Some lt by (simp split: if_splits)
    ultimately show ?thesis by simp
  qed
  then show ?thesis using positive_map_of [OF is_map_distinct [OF assms(4)]] by blast
qed

lemma is_ledger_iff:
  "is_ledger m = (is_map m \<and> (\<forall>e\<in>set m. is_int32 (fst e) \<and> is_int32 (snd e)))"
  by (simp add: is_ledger_def list_all_iff)

lemma is_ledger_map_of:
  assumes "is_map m" "\<And>w q. map_of m w = Some q \<Longrightarrow> is_int32 w \<and> is_int32 q"
  shows "is_ledger m"
proof -
  have d: "distinct (map fst m)" using assms(1) by (rule is_map_distinct)
  have "is_int32 (fst e) \<and> is_int32 (snd e)" if "e \<in> set m" for e
  proof -
    have "(fst e, snd e) \<in> set m" using that by simp
    then have "map_of m (fst e) = Some (snd e)" using d by (simp only: map_of_eq_Some_iff)
    then show ?thesis by (rule assms(2))
  qed
  then show ?thesis using assms(1) by (simp add: is_ledger_iff)
qed

lemma ledger_map_of:
  "is_ledger m \<Longrightarrow> map_of m w = Some q \<Longrightarrow> is_int32 w \<and> is_int32 q"
  using map_of_SomeD [of m w q] by (force simp: is_ledger_iff)

lemma ledger_member:
  "is_ledger m \<Longrightarrow> (w, q) \<in> set m \<Longrightarrow> is_int32 w \<and> is_int32 q"
  by (force simp: is_ledger_iff)

lemma ledger_quantities: "is_ledger m \<Longrightarrow> \<forall>e\<in>set m. snd e \<le> 2147483647"
  by (simp add: is_ledger_iff is_int32_def)

lemma ledger_settled:
  assumes "is_ledger inner" "positive inner" "set es = set inner" "is_map final"
    and final: "\<And>w. map_of final w =
      (case map_of (allotment n es) w of
         None \<Rightarrow> map_of inner w
       | Some (left, moved) \<Rightarrow> if left = 0 then None else Some left)"
  shows "is_ledger final"
proof (rule is_ledger_map_of [OF assms(4)])
  fix w q assume q: "map_of final w = Some q"
  show "is_int32 w \<and> is_int32 q"
  proof (cases "map_of (allotment n es) w")
    case None
    then have "map_of inner w = Some q" using q final by simp
    then show ?thesis using assms(1) ledger_map_of by blast
  next
    case (Some lt)
    obtain l t where lt: "lt = (l, t)" by (cases lt)
    have mem: "(w, l, t) \<in> set (allotment n es)" using Some lt by (simp add: map_of_SomeD)
    have "positive es" using assms(2,3) positive_set by blast
    then have e: "0 < t \<and> 0 \<le> l \<and> (w, l + t) \<in> set es" using allotment_entry mem by blast
    then have "(w, l + t) \<in> set inner" using assms(3) by simp
    then have r: "is_int32 w \<and> is_int32 (l + t)" using assms(1) ledger_member by blast
    have "q = l" using q final [of w] Some lt by (simp split: if_splits)
    then show ?thesis using r e unfolding is_int32_def by linarith
  qed
qed

subsection \<open>Storing a ledger\<close>

lemma map_find_store_ledger:
  "map_find (store_ledger outfit inner g) outfit' =
     (if outfit' = outfit then (if inner = [] then None else Some inner) else map_find g outfit')"
  by (simp add: store_ledger_def map_find_def map_of_assign map_of_erase)

lemma bucket_store_ledger:
  "bucket (store_ledger outfit inner g) outfit' w =
     (if outfit' = outfit then map_of inner w else bucket g outfit' w)"
  by (simp add: bucket_def map_find_store_ledger) (simp add: map_find_def)

lemma total_units_store_ledger:
  "total_units (store_ledger outfit inner g) outfit' =
     (if outfit' = outfit then sum_list (map snd inner) else total_units g outfit')"
  by (simp add: total_units_def map_find_store_ledger)

lemma set_store_ledger: "set (store_ledger outfit inner g) \<subseteq> insert (outfit, inner) (set g)"
  using set_assign_subset [of outfit inner g] by (auto simp: store_ledger_def set_erase)

lemma is_map_store_ledger: "is_map g \<Longrightarrow> is_map (store_ledger outfit inner g)"
  by (simp add: store_ledger_def is_map_assign is_map_erase)

lemma is_group_store_ledger:
  assumes "is_group g" "is_ledger inner"
  shows "is_group (store_ledger outfit inner g)"
proof -
  have "\<forall>e\<in>set (store_ledger outfit inner g). is_ledger (snd e)"
    using set_store_ledger [of outfit inner g] assms by (auto simp: is_group_def list_all_iff)
  then show ?thesis using assms(1) by (simp add: is_group_def is_map_store_ledger list_all_iff)
qed

lemma no_empty_buckets_store_ledger:
  assumes "no_empty_buckets g" "positive inner"
  shows "no_empty_buckets (store_ledger outfit inner g)"
proof (cases "inner = []")
  case True
  then show ?thesis using assms(1) by (simp add: store_ledger_def no_empty_buckets_def list_all_iff set_erase)
next
  case False
  have "set (map_assign outfit inner g) \<subseteq> insert (outfit, inner) (set g)"
    by (rule set_assign_subset)
  then show ?thesis
    using False assms by (auto simp: store_ledger_def no_empty_buckets_def list_all_iff)
qed

lemma map_find_member: "map_find g k = Some v \<Longrightarrow> (k, v) \<in> set g"
  by (simp add: map_find_def map_of_SomeD)

lemma is_group_is_ledger: "is_group g \<Longrightarrow> map_find g outfit = Some inner \<Longrightarrow> is_ledger inner"
  using map_find_member [of g outfit inner] by (force simp: is_group_def list_all_iff)

lemma is_group_ledger: "is_group g \<Longrightarrow> map_find g outfit = Some inner \<Longrightarrow> is_map inner"
  using is_group_is_ledger [of g outfit inner] by (simp add: is_ledger_def)

lemma bucket_in_range:
  assumes "is_group g" "bucket g outfit w = Some q"
  shows "is_int32 w \<and> is_int32 q"
proof -
  obtain inner where inner: "map_find g outfit = Some inner" and q: "map_of inner w = Some q"
    using assms(2) by (auto simp: bucket_def map_find_def split: option.splits)
  have "is_ledger inner" using assms(1) inner by (rule is_group_is_ledger)
  then show ?thesis using q by (rule ledger_map_of)
qed

lemma units_at_in_range: "is_group g \<Longrightarrow> is_int32 (units_at g outfit w)"
  using bucket_in_range [of g outfit w]
  by (cases "bucket g outfit w") (simp_all add: units_at_def is_int32_def)

lemma no_empty_buckets_ledger:
  "no_empty_buckets g \<Longrightarrow> map_find g outfit = Some inner \<Longrightarrow> inner \<noteq> [] \<and> positive inner"
  using map_find_member [of g outfit inner] by (force simp: no_empty_buckets_def list_all_iff)

subsection \<open>AddOutfit\<close>

lemma snd_AddOutfit: "snd (AddOutfit g outfit count wear) = count"
  by (simp add: AddOutfit_def Let_def split: option.split)

lemma bucket_AddOutfit:
  "bucket (fst (AddOutfit g outfit count wear)) outfit' w =
     (if outfit' = outfit \<and> w = wear
      then (case bucket g outfit wear of
              None \<Rightarrow> Some count
            | Some q \<Rightarrow> if int32 (q + count) = 0 then None else Some (int32 (q + count)))
      else bucket g outfit' w)"
proof (cases "map_find g outfit")
  case None
  then show ?thesis
    by (simp add: AddOutfit_def bucket_def) (simp add: map_find_def map_of_assign)
next
  case (Some inner)
  show ?thesis
  proof (cases "map_find inner wear")
    case None
    then show ?thesis using Some
      by (simp add: AddOutfit_def bucket_store_ledger map_of_assign) (simp add: bucket_def map_find_def)
  next
    case q: (Some q)
    then show ?thesis using Some
      by (simp add: AddOutfit_def Let_def bucket_store_ledger map_of_assign map_of_erase)
        (simp add: bucket_def map_find_def)
  qed
qed

lemma units_at_AddOutfit:
  assumes "is_int32 (units_at g outfit wear + count)"
  shows "units_at (fst (AddOutfit g outfit count wear)) outfit' w =
     units_at g outfit' w + (if outfit' = outfit \<and> w = wear then count else 0)"
proof (cases "bucket g outfit wear")
  case None
  then show ?thesis by (simp add: units_at_def bucket_AddOutfit)
next
  case (Some q)
  then have "int32 (q + count) = q + count" using assms by (simp add: units_at_def int32_id)
  then show ?thesis using Some by (simp add: units_at_def bucket_AddOutfit)
qed

lemma is_ledger_assign:
  assumes "is_ledger m" "is_int32 k" "is_int32 v"
  shows "is_ledger (map_assign k v m)"
proof -
  have "is_map (map_assign k v m)" using assms(1) by (simp add: is_ledger_def is_map_assign)
  moreover have "\<forall>e\<in>set (map_assign k v m). is_int32 (fst e) \<and> is_int32 (snd e)"
    using set_assign_subset [of k v m] assms by (auto simp: is_ledger_iff)
  ultimately show ?thesis by (simp add: is_ledger_iff)
qed

lemma is_ledger_erase: "is_ledger m \<Longrightarrow> is_ledger (map_erase k m)"
  by (simp add: is_ledger_iff is_map_erase set_erase)

lemma is_group_AddOutfit:
  assumes "is_group g" "is_int32 count" "is_int32 wear"
  shows "is_group (fst (AddOutfit g outfit count wear))"
proof (cases "map_find g outfit")
  case None
  have "is_ledger (map_assign wear count [])"
    using assms(2,3) by (simp add: is_ledger_def is_map_def)
  then have "is_group (store_ledger outfit (map_assign wear count []) g)"
    using assms(1) by (rule is_group_store_ledger [rotated])
  then show ?thesis using None by (simp add: AddOutfit_def store_ledger_def)
next
  case (Some inner)
  have inner: "is_ledger inner" using assms(1) Some by (rule is_group_is_ledger)
  show ?thesis
  proof (cases "map_find inner wear")
    case None
    have "is_ledger (map_assign wear count inner)" using inner assms(3,2) by (rule is_ledger_assign)
    then show ?thesis using Some None assms(1) by (simp add: AddOutfit_def is_group_store_ledger)
  next
    case q: (Some q)
    have a: "is_ledger (map_assign wear (int32 (q + count)) inner)"
      using inner assms(3) is_int32_int32 by (rule is_ledger_assign)
    then have e: "is_ledger (map_erase wear (map_assign wear (int32 (q + count)) inner))"
      by (rule is_ledger_erase)
    let ?inner = "if int32 (q + count) = 0
                  then map_erase wear (map_assign wear (int32 (q + count)) inner)
                  else map_assign wear (int32 (q + count)) inner"
    have "is_ledger ?inner" using a e by (cases "int32 (q + count) = 0") simp_all
    then have "is_group (store_ledger outfit ?inner g)"
      using assms(1) by (rule is_group_store_ledger [rotated])
    moreover have "fst (AddOutfit g outfit count wear) = store_ledger outfit ?inner g"
      using Some q by (simp add: AddOutfit_def Let_def)
    ultimately show ?thesis by simp
  qed
qed

lemma positive_assign:
  "positive m \<Longrightarrow> 0 < v \<Longrightarrow> positive (map_assign k v m)"
  using set_assign_subset [of k v m] by (auto simp: positive_def list_all_iff)

lemma positive_erase: "positive m \<Longrightarrow> positive (map_erase k m)"
  by (simp add: positive_def list_all_iff set_erase)

lemma units_in_positive:
  "positive m \<Longrightarrow> map_find m k = Some q \<Longrightarrow> 0 < q"
  using map_find_member [of m k q] by (force simp: positive_def list_all_iff)

text \<open>An execution of \<open>AddOutfit\<close> that is within stock keeps the invariant.\<close>

lemma no_empty_buckets_AddOutfit:
  assumes inv: "no_empty_buckets g" and stock: "add_within_stock g outfit count wear"
  shows "no_empty_buckets (fst (AddOutfit g outfit count wear))"
proof (cases "map_find g outfit")
  case None
  then have "bucket g outfit wear = None" by (simp add: bucket_def)
  then have "0 < count" using stock by (simp add: add_within_stock_def)
  then have p: "positive (map_assign wear count [])" by (simp add: positive_def)
  have "no_empty_buckets (store_ledger outfit (map_assign wear count []) g)"
    using inv p by (rule no_empty_buckets_store_ledger)
  then show ?thesis using None by (simp add: AddOutfit_def store_ledger_def)
next
  case (Some inner)
  have pos: "positive inner" using no_empty_buckets_ledger [OF inv Some] by simp
  show ?thesis
  proof (cases "map_find inner wear")
    case None
    then have "bucket g outfit wear = None" using Some by (simp add: bucket_def)
    then have "0 < count" using stock by (simp add: add_within_stock_def)
    then have "positive (map_assign wear count inner)" using pos by (simp add: positive_assign)
    then show ?thesis using Some None inv
      by (simp add: AddOutfit_def no_empty_buckets_store_ledger)
  next
    case q: (Some q)
    then have "bucket g outfit wear = Some q" using Some by (simp add: bucket_def)
    then have range: "0 \<le> q + count" "q + count \<le> 2147483647"
      using stock by (simp_all add: add_within_stock_def)
    then have same: "int32 (q + count) = q + count" by (simp add: int32_id is_int32_def)
    let ?inner = "if q + count = 0 then map_erase wear (map_assign wear (q + count) inner)
                  else map_assign wear (q + count) inner"
    have "positive ?inner"
    proof (cases "q + count = 0")
      case True
      have "set (map_erase wear (map_assign wear (q + count) inner)) \<subseteq> set inner"
        using set_assign_subset [of wear "q + count" inner] by (auto simp: set_erase)
      then show ?thesis using True pos by (auto simp: positive_def list_all_iff)
    next
      case False
      then have "0 < q + count" using range(1) by simp
      then show ?thesis using False pos by (simp add: positive_assign)
    qed
    then have "no_empty_buckets (store_ledger outfit ?inner g)"
      using inv by (rule no_empty_buckets_store_ledger [rotated])
    moreover have "fst (AddOutfit g outfit count wear) = store_ledger outfit ?inner g"
      using Some q by (simp add: AddOutfit_def Let_def same)
    ultimately show ?thesis by simp
  qed
qed

lemma total_units_AddOutfit:
  assumes "is_group g" "is_int32 (units_at g outfit wear + count)"
  shows "total_units (fst (AddOutfit g outfit count wear)) outfit' =
         total_units g outfit' + (if outfit' = outfit then count else 0)"
proof (cases "map_find g outfit")
  case None
  have "total_units (store_ledger outfit (map_assign wear count []) g) outfit' =
        (if outfit' = outfit then count else total_units g outfit')"
    by (simp add: total_units_store_ledger)
  then show ?thesis using None by (simp add: AddOutfit_def store_ledger_def total_units_def)
next
  case (Some inner)
  have inner: "is_map inner" using assms(1) Some by (rule is_group_ledger)
  show ?thesis
  proof (cases "map_find inner wear")
    case None
    then have "units_in inner wear = 0" by (simp add: units_in_def)
    then show ?thesis using Some None total_assign [OF inner, of wear count]
      by (simp add: AddOutfit_def total_units_store_ledger) (simp add: total_units_def)
  next
    case q: (Some q)
    then have u: "units_in inner wear = q" by (simp add: units_in_def)
    have "units_at g outfit wear = q" using Some q by (simp add: units_at_def bucket_def)
    then have same: "int32 (q + count) = q + count" using assms(2) by (simp add: int32_id)
    have a: "is_map (map_assign wear (q + count) inner)" using inner by (rule is_map_assign)
    have t1: "sum_list (map snd (map_assign wear (q + count) inner)) = sum_list (map snd inner) + count"
      using total_assign [OF inner, of wear "q + count"] u by simp
    have t2: "q + count = 0 \<Longrightarrow>
        sum_list (map snd (map_erase wear (map_assign wear (q + count) inner))) = sum_list (map snd inner) + count"
      using total_erase [OF a, of wear] t1 by (simp add: units_in_assign)
    show ?thesis using Some q t1 t2
      by (simp add: AddOutfit_def Let_def same total_units_store_ledger) (simp add: total_units_def)
  qed
qed

lemma bucket_positive:
  assumes "no_empty_buckets g" "bucket g outfit w = Some q"
  shows "0 < q"
proof -
  obtain inner where inner: "map_find g outfit = Some inner" and q: "map_find inner w = Some q"
    using assms(2) by (auto simp: bucket_def split: option.splits)
  have "positive inner" using no_empty_buckets_ledger [OF assms(1) inner] by simp
  then show ?thesis using q by (rule units_in_positive)
qed

subsection \<open>The destination after a removal\<close>

lemma deposit_all_None: "deposit_all outfit p None = None"
  by (induction p) (simp_all add: deposit_all_def deposit_def split: prod.split)

lemma deposit_all_Some: "deposit_all outfit p (Some dest) = Some (deposits outfit p dest)"
proof (induction p arbitrary: dest)
  case Nil
  then show ?case by (simp add: deposit_all_def deposits_def)
next
  case (Cons x p)
  obtain k l t where x: "x = (k, l, t)" by (cases x)
  have "deposit_all outfit (x # p) (Some dest) =
        deposit_all outfit p (Some (fst (AddOutfit dest outfit t k)))"
    by (simp add: deposit_all_def deposit_def x)
  also have "\<dots> = Some (deposits outfit p (fst (AddOutfit dest outfit t k)))"
    by (rule Cons.IH)
  also have "deposits outfit p (fst (AddOutfit dest outfit t k)) = deposits outfit (x # p) dest"
    by (simp add: deposits_def x)
  finally show ?case .
qed

lemma deposits_Cons:
  "deposits outfit ((k, l, t) # p) dest = deposits outfit p (fst (AddOutfit dest outfit t k))"
  by (simp add: deposits_def)

lemma moved_at_Cons:
  "moved_at ((k, l, t) # p) w = (if w = k then t else moved_at p w)"
  by (simp add: moved_at_def)

lemma moved_at_absent: "w \<notin> fst ` set p \<Longrightarrow> moved_at p w = 0"
  by (simp add: moved_at_def map_of_eq_None_iff [THEN iffD2])

lemma units_at_AddOutfit_elsewhere:
  "w \<noteq> wear \<Longrightarrow> units_at (fst (AddOutfit g outfit count wear)) outfit' w = units_at g outfit' w"
  by (simp add: units_at_def bucket_AddOutfit)

lemma deposits_fit_Cons:
  "deposits_fit h outfit ((k, l, t) # p) =
     (units_at h outfit k + t \<le> 2147483647 \<and> deposits_fit h outfit p)"
  by (simp add: deposits_fit_def)

lemma deposits_fit_iff:
  "deposits_fit h outfit p = (\<forall>x\<in>set p. units_at h outfit (fst x) + snd (snd x) \<le> 2147483647)"
  by (auto simp: deposits_fit_def list_all_iff)

text \<open>
  The deposits of a plan whose wear levels are distinct, whose quantities are positive
  values of \<open>int\<close> and which fits the destination.
\<close>

lemma deposits_effect:
  assumes "is_group dest" "distinct (map fst p)"
    and "\<forall>x\<in>set p. is_int32 (fst x) \<and> 0 < snd (snd x) \<and> snd (snd x) \<le> 2147483647"
    and "deposits_fit dest outfit p"
  shows "is_group (deposits outfit p dest)
       \<and> (\<forall>outfit' w. units_at (deposits outfit p dest) outfit' w =
              units_at dest outfit' w + (if outfit' = outfit then moved_at p w else 0))
       \<and> (\<forall>outfit'. total_units (deposits outfit p dest) outfit' =
              total_units dest outfit' + (if outfit' = outfit then moved_total p else 0))
       \<and> (no_empty_buckets dest \<longrightarrow> no_empty_buckets (deposits outfit p dest))"
  using assms
proof (induction p arbitrary: dest)
  case Nil
  then show ?case by (simp add: deposits_def moved_at_def moved_total_def)
next
  case (Cons x p)
  obtain k l t where x: "x = (k, l, t)" by (cases x)
  let ?d = "fst (AddOutfit dest outfit t k)"
  have d: "distinct (map fst p)" and k: "k \<notin> fst ` set p"
    using Cons.prems(2) x by simp_all
  have here: "is_int32 k" "0 < t" "t \<le> 2147483647"
    and rest: "\<forall>x\<in>set p. is_int32 (fst x) \<and> 0 < snd (snd x) \<and> snd (snd x) \<le> 2147483647"
    using Cons.prems(3) x by simp_all
  have fit: "units_at dest outfit k + t \<le> 2147483647" and fits: "deposits_fit dest outfit p"
    using Cons.prems(4) x by (simp_all add: deposits_fit_Cons)
  have t: "is_int32 t" using here by (simp add: is_int32_def)
  have "is_int32 (units_at dest outfit k)" using Cons.prems(1) by (rule units_at_in_range)
  then have sum: "is_int32 (units_at dest outfit k + t)"
    using fit here(2) unfolding is_int32_def by linarith
  have g1: "is_group ?d" using Cons.prems(1) t here(1) by (rule is_group_AddOutfit)
  have fit1: "deposits_fit ?d outfit p"
  proof -
    have "units_at ?d outfit (fst y) = units_at dest outfit (fst y)" if "y \<in> set p" for y
    proof -
      have "fst y \<noteq> k" using k that by auto
      then show ?thesis by (rule units_at_AddOutfit_elsewhere)
    qed
    then show ?thesis using fits by (simp add: deposits_fit_iff)
  qed
  have n1: "no_empty_buckets ?d" if inv: "no_empty_buckets dest"
  proof -
    have "add_within_stock dest outfit t k"
    proof (cases "bucket dest outfit k")
      case None
      then show ?thesis using t here by (simp add: add_within_stock_def)
    next
      case (Some q)
      then have "0 < q" using inv bucket_positive by blast
      moreover have "units_at dest outfit k = q" using Some by (simp add: units_at_def)
      ultimately show ?thesis using Some t here fit by (simp add: add_within_stock_def)
    qed
    then show ?thesis using inv by (simp add: no_empty_buckets_AddOutfit)
  qed
  have ih: "is_group (deposits outfit p ?d)
       \<and> (\<forall>outfit' w. units_at (deposits outfit p ?d) outfit' w =
              units_at ?d outfit' w + (if outfit' = outfit then moved_at p w else 0))
       \<and> (\<forall>outfit'. total_units (deposits outfit p ?d) outfit' =
              total_units ?d outfit' + (if outfit' = outfit then moved_total p else 0))
       \<and> (no_empty_buckets ?d \<longrightarrow> no_empty_buckets (deposits outfit p ?d))"
    using g1 d rest fit1 by (rule Cons.IH)
  have none: "moved_at p k = 0" using k by (rule moved_at_absent)
  have step: "deposits outfit (x # p) dest = deposits outfit p ?d"
    by (simp add: x deposits_Cons)
  have u: "units_at (deposits outfit p ?d) outfit' w =
      units_at dest outfit' w + (if outfit' = outfit then moved_at (x # p) w else 0)" for outfit' w
    using ih units_at_AddOutfit [OF sum, of outfit' w] none by (simp add: x moved_at_Cons)
  have tot: "total_units (deposits outfit p ?d) outfit' =
      total_units dest outfit' + (if outfit' = outfit then moved_total (x # p) else 0)" for outfit'
    using ih total_units_AddOutfit [OF Cons.prems(1) sum, of outfit'] by (simp add: x moved_total_Cons)
  show ?case unfolding step using ih u tot n1 by blast
qed

subsection \<open>RemoveOutfit\<close>

lemma RemoveOutfit_absent:
  "map_find g outfit = None \<Longrightarrow> RemoveOutfit g outfit count mostWornFirst to = (g, to, 0)"
  by (simp add: RemoveOutfit_def)

lemma RemoveOutfit_most_worn:
  assumes "map_find g outfit = Some inner" "0 < count" "count \<le> 2147483647"
    and "positive inner" "\<forall>e\<in>set inner. snd e \<le> 2147483647"
  shows "RemoveOutfit g outfit count True to =
    (store_ledger outfit
       (fold map_erase (drained (allotment count (rev inner))) (write_back (allotment count (rev inner)) inner)) g,
     deposit_all outfit (allotment count (rev inner)) to,
     moved_total (allotment count (rev inner)))"
proof -
  have "positive (rev inner)" using assms(4) positive_set [of "rev inner" inner] by simp
  moreover have "\<forall>e\<in>set (rev inner). snd e \<le> 2147483647" using assms(5) by simp
  ultimately have "drain_most_worn outfit count (rev inner) ((inner, to, 0), []) =
     ((write_back (allotment (count - 0) (rev inner)) inner,
       deposit_all outfit (allotment (count - 0) (rev inner)) to,
       0 + moved_total (allotment (count - 0) (rev inner))),
      [] @ drained (allotment (count - 0) (rev inner)))"
    using assms(2,3) by (intro drain_most_worn_allotment) simp_all
  then show ?thesis using assms(1) by (simp add: RemoveOutfit_def)
qed

lemma RemoveOutfit_least_worn:
  assumes "map_find g outfit = Some inner" "count \<le> 2147483647"
    and "positive inner" "\<forall>e\<in>set inner. snd e \<le> 2147483647"
  shows "RemoveOutfit g outfit count False to =
    (store_ledger outfit (write_back_erasing (allotment count inner) inner) g,
     deposit_all outfit (allotment count inner) to,
     moved_total (allotment count inner))"
proof -
  have "drain_least_worn outfit count inner (inner, to, 0) =
     (write_back_erasing (allotment (count - 0) inner) inner,
      deposit_all outfit (allotment (count - 0) inner) to,
      0 + moved_total (allotment (count - 0) inner))"
    using assms(3,4,2) by (intro drain_least_worn_allotment) simp_all
  then show ?thesis using assms(1) by (simp add: RemoveOutfit_def)
qed

lemma RemoveOutfit_present:
  assumes g: "is_group g" "no_empty_buckets g" and count: "0 < count" "count \<le> 2147483647"
    and inner: "map_find g outfit = Some inner"
  obtains final p where
    "p = allotment count (if mostWornFirst then rev inner else inner)"
    "RemoveOutfit g outfit count mostWornFirst to =
       (store_ledger outfit final g, deposit_all outfit p to, moved_total p)"
    "is_ledger final" "positive final"
    "\<forall>w. units_in final w = units_in inner w - moved_at p w"
    "sum_list (map snd final) = sum_list (map snd inner) - moved_total p"
    "moved_total p = min count (sum_list (map snd inner))"
    "distinct (map fst p)"
    "\<forall>x\<in>set p. is_int32 (fst x) \<and> 0 < snd (snd x) \<and> snd (snd x) \<le> 2147483647"
proof -
  let ?es = "if mostWornFirst then rev inner else inner"
  let ?p = "allotment count ?es"
  let ?final = "if mostWornFirst then fold map_erase (drained ?p) (write_back ?p inner)
                else write_back_erasing ?p inner"
  have l: "is_ledger inner" using g(1) inner by (rule is_group_is_ledger)
  have m: "is_map inner" using g(1) inner by (rule is_group_ledger)
  have pos: "positive inner" using no_empty_buckets_ledger [OF g(2) inner] by simp
  have q: "\<forall>e\<in>set inner. snd e \<le> 2147483647" using l by (rule ledger_quantities)
  have set: "set ?es = set inner" by simp
  have des: "distinct (map fst ?es)" using is_map_distinct [OF m] by (simp add: rev_map [symmetric])
  have dp: "distinct (map fst ?p)" using des by (rule allotment_distinct)
  have live: "\<forall>x\<in>set ?p. units_in inner (fst x) = fst (snd x) + snd (snd x)"
    using allotment_live(1) [OF m pos set] by blast
  have pes: "positive ?es" using pos set positive_set by blast
  have moved: "\<forall>x\<in>set ?p. is_int32 (fst x) \<and> 0 < snd (snd x) \<and> snd (snd x) \<le> 2147483647"
  proof
    fix x assume x: "x \<in> set ?p"
    obtain w lf t where xw: "x = (w, lf, t)" by (cases x)
    have e: "0 < t \<and> 0 \<le> lf \<and> (w, lf + t) \<in> set ?es"
      using allotment_entry [OF pes] x xw by blast
    then have "(w, lf + t) \<in> set inner" using set by simp
    then have "is_int32 w \<and> is_int32 (lf + t)" using l ledger_member by blast
    then show "is_int32 (fst x) \<and> 0 < snd (snd x) \<and> snd (snd x) \<le> 2147483647"
      using e xw unfolding is_int32_def by simp
  qed
  have run: "RemoveOutfit g outfit count mostWornFirst to =
       (store_ledger outfit ?final g, deposit_all outfit ?p to, moved_total ?p)"
    using RemoveOutfit_most_worn [OF inner count pos q] RemoveOutfit_least_worn [OF inner count(2) pos q]
    by (cases mostWornFirst) simp_all
  have fm: "is_map ?final"
    using m by (simp add: is_map_fold_erase is_map_write_back is_map_write_back_erasing)
  have mo: "\<And>w. map_of ?final w =
      (case map_of ?p w of
         None \<Rightarrow> map_of inner w
       | Some (left, moved) \<Rightarrow> if left = 0 then None else Some left)"
    using map_of_most_worn [OF dp] map_of_least_worn [OF dp] by (cases mostWornFirst) simp_all
  have u: "\<forall>w. units_in ?final w = units_in inner w - moved_at ?p w"
    using units_in_settled [OF m pos set des mo] by blast
  have fp: "positive ?final" using m pos set fm mo by (rule positive_settled)
  have fl: "is_ledger ?final" using l pos set fm mo by (rule ledger_settled)
  have tot: "sum_list (map snd ?final) = sum_list (map snd inner) - moved_total ?p"
    using total_most_worn [OF m dp live] total_least_worn [OF m dp live]
    by (cases mostWornFirst) simp_all
  have "moved_total ?p = min count (sum_list (map snd ?es))"
    using pes count(1) by (simp add: moved_total_allotment)
  then have mt: "moved_total ?p = min count (sum_list (map snd inner))"
    by (simp add: rev_map [symmetric])
  show ?thesis using that [OF refl run fl fp u tot mt dp moved] .
qed

lemma units_at_ledger:
  "map_find g outfit = Some inner \<Longrightarrow> units_at g outfit w = units_in inner w"
  by (simp add: units_at_def bucket_def units_in_def)

lemma units_at_store_ledger:
  "units_at (store_ledger outfit inner g) outfit' w =
     (if outfit' = outfit then units_in inner w else units_at g outfit' w)"
  by (simp add: units_at_def bucket_store_ledger units_in_def map_find_def)

lemma deposit_all_map_option:
  "deposit_all outfit p to = map_option (deposits outfit p) to"
  by (cases to) (simp_all add: deposit_all_None deposit_all_Some)

lemma RemoveOutfit_effect:
  assumes g: "is_group g" "no_empty_buckets g" and count: "0 < count" "count \<le> 2147483647"
    and run: "RemoveOutfit g outfit count mostWornFirst to = (g', to', removed)"
  obtains p where
    "p = removal_plan g outfit count mostWornFirst"
    "is_group g'" "no_empty_buckets g'"
    "removed = min count (total_units g outfit)"
    "moved_total p = removed"
    "\<forall>outfit' w. units_at g' outfit' w =
        units_at g outfit' w - (if outfit' = outfit then moved_at p w else 0)"
    "\<forall>outfit'. total_units g' outfit' =
        total_units g outfit' - (if outfit' = outfit then removed else 0)"
    "to' = map_option (deposits outfit p) to"
    "distinct (map fst p)"
    "\<forall>x\<in>set p. is_int32 (fst x) \<and> 0 < snd (snd x) \<and> snd (snd x) \<le> 2147483647"
proof (cases "map_find g outfit")
  case None
  have same: "g' = g" "to' = to" "removed = 0"
    using run RemoveOutfit_absent [OF None, of count mostWornFirst to] by simp_all
  have p: "removal_plan g outfit count mostWornFirst = []"
    using None by (simp add: removal_plan_def)
  show ?thesis
  proof (rule that [of "[]"])
    show "[] = removal_plan g outfit count mostWornFirst" using p by simp
    show "is_group g'" "no_empty_buckets g'" using same g by simp_all
    show "removed = min count (total_units g outfit)"
      using same None count by (simp add: total_units_def)
    show "moved_total [] = removed" using same by (simp add: moved_total_def)
    show "\<forall>outfit' w. units_at g' outfit' w =
        units_at g outfit' w - (if outfit' = outfit then moved_at [] w else 0)"
      using same by (simp add: moved_at_def)
    show "\<forall>outfit'. total_units g' outfit' =
        total_units g outfit' - (if outfit' = outfit then removed else 0)"
      using same by simp
    show "to' = map_option (deposits outfit []) to"
      using same by (cases to) (simp_all add: deposits_def)
    show "distinct (map fst ([] :: (int \<times> int \<times> int) list))" by simp
    show "\<forall>x\<in>set ([] :: (int \<times> int \<times> int) list).
        is_int32 (fst x) \<and> 0 < snd (snd x) \<and> snd (snd x) \<le> 2147483647" by simp
  qed
next
  case (Some inner)
  obtain final p where
    p: "p = allotment count (if mostWornFirst then rev inner else inner)"
    and r: "RemoveOutfit g outfit count mostWornFirst to =
       (store_ledger outfit final g, deposit_all outfit p to, moved_total p)"
    and fm: "is_ledger final" and fp: "positive final"
    and u: "\<forall>w. units_in final w = units_in inner w - moved_at p w"
    and tot: "sum_list (map snd final) = sum_list (map snd inner) - moved_total p"
    and mt: "moved_total p = min count (sum_list (map snd inner))"
    and dp: "distinct (map fst p)"
    and mv: "\<forall>x\<in>set p. is_int32 (fst x) \<and> 0 < snd (snd x) \<and> snd (snd x) \<le> 2147483647"
    by (rule RemoveOutfit_present [OF g count Some, where mostWornFirst = mostWornFirst and to = to])
  have res: "g' = store_ledger outfit final g" "to' = deposit_all outfit p to"
    "removed = moved_total p"
    using run r by simp_all
  have total: "total_units g outfit = sum_list (map snd inner)"
    using Some by (simp add: total_units_def)
  show ?thesis
  proof (rule that [of p])
    show "p = removal_plan g outfit count mostWornFirst"
      using p Some by (simp add: removal_plan_def)
    show "is_group g'" using res g(1) fm by (simp add: is_group_store_ledger)
    show "no_empty_buckets g'" using res g(2) fp by (simp add: no_empty_buckets_store_ledger)
    show "removed = min count (total_units g outfit)" using res mt total by simp
    show "moved_total p = removed" using res by simp
    show "\<forall>outfit' w. units_at g' outfit' w =
        units_at g outfit' w - (if outfit' = outfit then moved_at p w else 0)"
      using res u units_at_ledger [OF Some] by (simp add: units_at_store_ledger)
    show "\<forall>outfit'. total_units g' outfit' =
        total_units g outfit' - (if outfit' = outfit then removed else 0)"
      using res tot total by (simp add: total_units_store_ledger)
    show "to' = map_option (deposits outfit p) to"
      using res by (simp add: deposit_all_map_option)
    show "distinct (map fst p)" by (rule dp)
    show "\<forall>x\<in>set p. is_int32 (fst x) \<and> 0 < snd (snd x) \<and> snd (snd x) \<le> 2147483647"
      by (rule mv)
  qed
qed

subsection \<open>The most worn units go first\<close>







lemma bucket_of_units:
  assumes "no_empty_buckets g"
  shows "bucket g outfit w = (if units_at g outfit w = 0 then None else Some (units_at g outfit w))"
proof (cases "bucket g outfit w")
  case None
  then show ?thesis by (simp add: units_at_def)
next
  case (Some q)
  then have "0 < q" using assms bucket_positive by blast
  then show ?thesis using Some by (simp add: units_at_def)
qed

text \<open>
  With a count that is not positive the do-while loop runs its body once, on the most
  worn bucket, with \<open>toRemove = count\<close>.
\<close>

lemma RemoveOutfit_none_wanted:
  assumes g: "is_group g" "no_empty_buckets g" and count: "count \<le> 0" "is_int32 count"
    and inner: "map_find g outfit = Some inner"
    and fit: "snd (last inner) - count \<le> 2147483647"
  obtains k q where "last inner = (k, q)" "0 < q" "units_in inner k = q" "is_int32 k"
    "RemoveOutfit g outfit count True to =
       (store_ledger outfit (map_assign k (q - count) inner) g, deposit to outfit count k, count)"
proof -
  have l: "is_ledger inner" using g(1) inner by (rule is_group_is_ledger)
  have m: "is_map inner" using g(1) inner by (rule is_group_ledger)
  have pos: "inner \<noteq> []" "positive inner" using no_empty_buckets_ledger [OF g(2) inner] by simp_all
  obtain k q where kq: "last inner = (k, q)" by (cases "last inner")
  obtain rest where r: "rev inner = (k, q) # rest"
    using pos(1) kq by (cases "rev inner") (simp_all add: last_rev [symmetric] hd_rev)
  have mem: "(k, q) \<in> set inner" using pos(1) kq last_in_set [of inner] by simp
  then have q: "0 < q" using pos(2) by (auto simp: positive_def list_all_iff)
  have u: "units_in inner k = q" using units_in_member [OF is_map_distinct [OF m] mem] .
  have k: "is_int32 k" using l mem ledger_member by blast
  have "is_int32 (q - count)" using fit kq q count(1) unfolding is_int32_def by simp
  then have a: "int32 (q - count) = q - count" by (rule int32_id)
  have b: "int32 count = count" using count(2) by (rule int32_id)
  have c: "min q count = count" "q \<noteq> count" using q count(1) by simp_all
  have res: "RemoveOutfit g outfit count True to =
      (store_ledger outfit (map_assign k (q - count) inner) g, deposit to outfit count k, count)"
    using inner r by (simp add: RemoveOutfit_def a b c)
  show ?thesis using that [OF kq q u k res] .
qed

subsection \<open>IncrementWear\<close>

lemma map_of_fold_assign:
  assumes "distinct (map fst es)" "inj_on f (fst ` set es)"
  shows "map_of (fold (\<lambda>(k, q) m. map_assign (f k) q m) es acc) w =
     (case map_of (map (\<lambda>(k, q). (f k, q)) es) w of None \<Rightarrow> map_of acc w | Some q \<Rightarrow> Some q)"
  using assms
proof (induction es arbitrary: acc)
  case Nil
  then show ?case by simp
next
  case (Cons e es)
  obtain k q where e: "e = (k, q)" by (cases e)
  have d: "distinct (map fst es)" and k: "k \<notin> fst ` set es"
    using Cons.prems(1) e by simp_all
  have inj: "inj_on f (fst ` set es)" using Cons.prems(2) by (simp add: inj_on_def)
  have "f k \<notin> f ` fst ` set es"
  proof
    assume "f k \<in> f ` fst ` set es"
    then obtain j where j: "j \<in> fst ` set es" "f k = f j" by blast
    moreover have "k \<in> fst ` set (e # es)" "j \<in> fst ` set (e # es)" using e j(1) by auto
    ultimately have "k = j" using inj_onD [OF Cons.prems(2)] by blast
    then show False using j(1) k by simp
  qed
  moreover have "fst ` set (map (\<lambda>(k, q). (f k, q)) es) = f ` fst ` set es"
    by (force simp: image_iff)
  ultimately have fresh: "map_of (map (\<lambda>(k, q). (f k, q)) es) (f k) = None"
    by (simp only: map_of_eq_None_iff not_False_eq_True)
  have "map_of (fold (\<lambda>(k, q) m. map_assign (f k) q m) es (map_assign (f k) q acc)) w =
     (case map_of (map (\<lambda>(k, q). (f k, q)) es) w of
        None \<Rightarrow> map_of (map_assign (f k) q acc) w | Some q \<Rightarrow> Some q)"
    using d inj by (rule Cons.IH)
  then show ?case using fresh by (simp add: e map_of_assign split: option.split)
qed

lemma is_map_fold_assign:
  "is_map acc \<Longrightarrow> is_map (fold (\<lambda>(k, q) m. map_assign (f k) q m) es acc)"
proof (induction es arbitrary: acc)
  case Nil
  then show ?case by simp
next
  case (Cons e es)
  obtain k q where e: "e = (k, q)" by (cases e)
  have "is_map (map_assign (f k) q acc)" using Cons.prems by (rule is_map_assign)
  then have "is_map (fold (\<lambda>(k, q) m. map_assign (f k) q m) es (map_assign (f k) q acc))"
    by (rule Cons.IH)
  then show ?case by (simp add: e)
qed

lemma map_of_image:
  "inj_on f (insert w (fst ` set es)) \<Longrightarrow>
   map_of (map (\<lambda>(k, q). (f k, q)) es) (f w) = map_of es w"
proof (induction es)
  case Nil
  then show ?case by simp
next
  case (Cons e es)
  obtain k q where e: "e = (k, q)" by (cases e)
  have "inj_on f (insert w (fst ` set es))" using Cons.prems by (simp add: inj_on_def)
  then have ih: "map_of (map (\<lambda>(k, q). (f k, q)) es) (f w) = map_of es w" by (rule Cons.IH)
  have "f w = f k \<longleftrightarrow> w = k" using Cons.prems e by (auto simp: inj_on_def)
  then show ?case using ih by (simp add: e)
qed

lemma shift_inj_on: "\<forall>k\<in>S. is_int32 k \<Longrightarrow> inj_on (\<lambda>k. int32 (k + v)) S"
  using int32_shift_inj by (auto simp: inj_on_def)

text \<open>The ledger rebuilt by \<open>IncrementWear\<close> has the buckets of the old one, at the shifted keys.\<close>

lemma shift_ledger_entries:
  assumes "is_ledger inner"
  shows "is_map (shift_ledger v inner)"
    and "set (shift_ledger v inner) = (\<lambda>(k, q). (int32 (k + v), q)) ` set inner"
    and "sum_list (map snd (shift_ledger v inner)) = sum_list (map snd inner)"
proof -
  let ?h = "\<lambda>(k, q). (int32 (k + v), q) :: int \<times> int"
  have m: "is_map inner" using assms by (simp add: is_ledger_def)
  have d: "distinct (map fst inner)" using m by (rule is_map_distinct)
  have keys: "\<forall>k\<in>fst ` set inner. is_int32 k" using assms by (auto simp: is_ledger_iff)
  then have inj: "inj_on (\<lambda>k. int32 (k + v)) (fst ` set inner)" by (rule shift_inj_on)
  show sm: "is_map (shift_ledger v inner)"
    unfolding shift_ledger_def by (rule is_map_fold_assign) (simp add: is_map_def)
  have "map_of (shift_ledger v inner) w = map_of (map ?h inner) w" for w
    using map_of_fold_assign [OF d inj, of "[]" w]
    by (simp add: shift_ledger_def split: option.split)
  then have mo: "map_of (shift_ledger v inner) = map_of (map ?h inner)" by (rule ext)
  have "map fst (map ?h inner) = map (\<lambda>k. int32 (k + v)) (map fst inner)"
    by (simp add: split_beta comp_def)
  then have dh: "distinct (map fst (map ?h inner))"
    using d inj by (simp only: distinct_map set_map)
  have ds: "distinct (map fst (shift_ledger v inner))" using sm by (rule is_map_distinct)
  have set: "set (shift_ledger v inner) = set (map ?h inner)"
    using ds dh mo by (simp only: map_of_inject_set)
  then show "set (shift_ledger v inner) = ?h ` set inner" by simp
  have "distinct (shift_ledger v inner)" using ds by (rule distinct_map [THEN iffD1, THEN conjunct1])
  moreover have "distinct (map ?h inner)" using dh by (rule distinct_map [THEN iffD1, THEN conjunct1])
  ultimately have "sum_list (map snd (shift_ledger v inner)) = sum_list (map snd (map ?h inner))"
    using set by (simp only: sum_list_distinct_conv_sum_set)
  also have "\<dots> = sum_list (map snd inner)" by (simp add: split_beta comp_def)
  finally show "sum_list (map snd (shift_ledger v inner)) = sum_list (map snd inner)" .
qed

lemma map_of_shift_ledger:
  assumes "is_ledger inner" "is_int32 w"
  shows "map_of (shift_ledger v inner) (int32 (w + v)) = map_of inner w"
proof -
  let ?h = "\<lambda>(k, q). (int32 (k + v), q) :: int \<times> int"
  have m: "is_map inner" using assms(1) by (simp add: is_ledger_def)
  have d: "distinct (map fst inner)" using m by (rule is_map_distinct)
  have keys: "\<forall>k\<in>insert w (fst ` set inner). is_int32 k"
    using assms by (auto simp: is_ledger_iff)
  then have inj: "inj_on (\<lambda>k. int32 (k + v)) (insert w (fst ` set inner))" by (rule shift_inj_on)
  then have inj': "inj_on (\<lambda>k. int32 (k + v)) (fst ` set inner)" by (simp add: inj_on_def)
  have "map_of (shift_ledger v inner) (int32 (w + v)) = map_of (map ?h inner) (int32 (w + v))"
    using map_of_fold_assign [OF d inj', of "[]" "int32 (w + v)"]
    by (simp add: shift_ledger_def split: option.split)
  also have "\<dots> = map_of inner w"
    using map_of_image [of "\<lambda>k. int32 (k + v)" w inner, OF inj] by simp
  finally show ?thesis .
qed

lemma is_ledger_shift_ledger:
  assumes "is_ledger inner"
  shows "is_ledger (shift_ledger v inner)"
proof -
  have "\<forall>e\<in>set (shift_ledger v inner). is_int32 (fst e) \<and> is_int32 (snd e)"
    using assms by (auto simp: shift_ledger_entries(2) [OF assms] is_ledger_iff is_int32_int32)
  then show ?thesis using shift_ledger_entries(1) [OF assms] by (simp add: is_ledger_iff)
qed

lemma map_find_IncrementWear:
  "map_find (IncrementWear g v) outfit = map_option (shift_ledger v) (map_find g outfit)"
  by (simp add: IncrementWear_def map_find_def map_of_map)

lemma bucket_IncrementWear:
  assumes "is_group g" "is_int32 w"
  shows "bucket (IncrementWear g v) outfit (int32 (w + v)) = bucket g outfit w"
proof (cases "map_find g outfit")
  case None
  then show ?thesis by (simp add: bucket_def map_find_IncrementWear)
next
  case (Some inner)
  have "is_ledger inner" using assms(1) Some by (rule is_group_is_ledger)
  then have "map_of (shift_ledger v inner) (int32 (w + v)) = map_of inner w"
    using assms(2) by (rule map_of_shift_ledger)
  then show ?thesis
    using Some by (simp add: bucket_def map_find_IncrementWear) (simp add: map_find_def)
qed

lemma bucket_IncrementWear_back:
  assumes "is_group g" "is_int32 w"
  shows "bucket (IncrementWear g v) outfit w = bucket g outfit (int32 (w - v))"
  using bucket_IncrementWear [OF assms(1) is_int32_int32, of v outfit "w - v"]
    int32_shift_back [OF assms(2), of v]
  by simp

lemma total_units_IncrementWear:
  assumes "is_group g"
  shows "total_units (IncrementWear g v) outfit = total_units g outfit"
proof (cases "map_find g outfit")
  case None
  then show ?thesis by (simp add: total_units_def map_find_IncrementWear)
next
  case (Some inner)
  have "is_ledger inner" using assms Some by (rule is_group_is_ledger)
  then have "sum_list (map snd (shift_ledger v inner)) = sum_list (map snd inner)"
    by (rule shift_ledger_entries(3))
  then show ?thesis
    using Some by (simp add: total_units_def map_find_IncrementWear)
qed

lemma GetTotalCount_IncrementWear:
  "is_group g \<Longrightarrow> GetTotalCount (IncrementWear g v) outfit = GetTotalCount g outfit"
  by (simp add: GetTotalCount_total_units total_units_IncrementWear)

subsection \<open>TransferOutfits\<close>

lemma TransferOutfits_nothing:
  "count = 0 \<or> outfit = nullptr \<Longrightarrow>
   TransferOutfits g outfit count to mostWornFirst defaultWear = Some (g, to, 0)"
  by (auto simp: TransferOutfits.simps)

lemma TransferOutfits_to_nowhere:
  "0 < count \<Longrightarrow> outfit \<noteq> nullptr \<Longrightarrow>
   TransferOutfits g outfit count None mostWornFirst defaultWear =
     Some (RemoveOutfit g outfit count mostWornFirst None)"
  by (simp add: TransferOutfits.simps)

lemma negate_int32: "- 2147483648 < count \<Longrightarrow> count \<le> 2147483647 \<Longrightarrow> int32 (- count) = - count"
  by (rule int32_id) (simp add: is_int32_def)

lemma TransferOutfits_from_nowhere:
  assumes "count < 0" "- 2147483648 < count" "outfit \<noteq> nullptr"
  shows "TransferOutfits g outfit count None mostWornFirst defaultWear =
     Some (fst (AddOutfit g outfit (- count) defaultWear), None, count)"
proof -
  have "int32 (- count) = - count" using assms(1,2) by (simp add: negate_int32)
  moreover have "int32 count = count" using assms(1,2) by (simp add: int32_id is_int32_def)
  ultimately show ?thesis
    using assms(1,3) by (simp add: TransferOutfits.simps split_beta snd_AddOutfit)
qed

lemma TransferOutfits_forward:
  "0 < count \<Longrightarrow> outfit \<noteq> nullptr \<Longrightarrow>
   TransferOutfits g outfit count (Some dest) mostWornFirst defaultWear =
     Some (RemoveOutfit g outfit count mostWornFirst (Some dest))"
  by (simp add: TransferOutfits.simps)

lemma TransferOutfits_backward:
  assumes "count < 0" "- 2147483648 < count" "outfit \<noteq> nullptr"
    and "RemoveOutfit dest outfit (- count) mostWornFirst (Some g) = (dest', Some g', moved)"
  shows "TransferOutfits g outfit count (Some dest) mostWornFirst defaultWear =
     Some (g', Some dest', int32 (- moved))"
proof -
  have n: "int32 (- count) = - count" using assms(1,2) by (simp add: negate_int32)
  have "0 < - count" using assms(1) by simp
  then have "TransferOutfits dest outfit (- count) (Some g) mostWornFirst defaultWear =
      Some (dest', Some g', moved)"
    using assms(3,4) by (simp add: TransferOutfits_forward)
  then show ?thesis
    using assms(1,3) by (simp add: TransferOutfits.simps [of g] n)
qed

text \<open>
  With a destination and the count \<open>-2^31\<close>, whose negation is \<open>-2^31\<close> again, the
  two groups call each other for ever: \<open>TransferOutfits\<close> does not return.
\<close>

lemma TransferOutfits_returns:
  assumes "TransferOutfits g outfit count to mostWornFirst defaultWear = Some r"
  shows "count \<noteq> - 2147483648 \<or> to = None \<or> outfit = nullptr"
proof (rule TransferOutfits.raw_induct
    [where P = "\<lambda>g outfit count to mostWornFirst defaultWear r.
                  count \<noteq> - 2147483648 \<or> to = None \<or> outfit = nullptr", OF _ assms])
  fix f :: "OutfitGroup \<Rightarrow> OutfitPtr \<Rightarrow> int \<Rightarrow> OutfitGroup option \<Rightarrow> bool \<Rightarrow> int
     \<Rightarrow> (OutfitGroup \<times> OutfitGroup option \<times> int) option"
  fix g outfit count to mostWornFirst defaultWear r
  assume ih: "\<And>g outfit count to mostWornFirst defaultWear r.
      f g outfit count to mostWornFirst defaultWear = Some r \<Longrightarrow>
      count \<noteq> - 2147483648 \<or> to = None \<or> outfit = nullptr"
  assume body: "(if count = 0 \<or> outfit = nullptr then Some (g, to, 0)
      else case to of
           None \<Rightarrow>
             if 0 < count
             then Some (RemoveOutfit g outfit count mostWornFirst None)
             else let (g', added) = AddOutfit g outfit (int32 (- count)) defaultWear
                  in Some (g', None, int32 (- added))
           | Some dest \<Rightarrow>
               if count < 0
               then Option.bind
                     (f dest outfit (int32 (- count)) (Some g) mostWornFirst defaultWear)
                     (\<lambda>(dest', this, moved).
                         Some (case this of None \<Rightarrow> g | Some g' \<Rightarrow> g', Some dest', int32 (- moved)))
               else Some (RemoveOutfit g outfit count mostWornFirst (Some dest))) =
     Some r"
  show "count \<noteq> - 2147483648 \<or> to = None \<or> outfit = nullptr"
  proof (rule ccontr)
    assume "\<not> (count \<noteq> - 2147483648 \<or> to = None \<or> outfit = nullptr)"
    then obtain dest where c: "count = - 2147483648" "to = Some dest" "outfit \<noteq> nullptr" by auto
    have n: "int32 (- (- 2147483648)) = - 2147483648" by (simp add: int32_def)
    obtain r' where "f dest outfit (- 2147483648) (Some g) mostWornFirst defaultWear = Some r'"
      using body c n by (auto simp: bind_eq_Some_conv)
    then show False using ih c(3) by blast
  qed
qed

lemma TransferOutfits_forever:
  "outfit \<noteq> nullptr \<Longrightarrow>
   TransferOutfits g outfit (- 2147483648) (Some dest) mostWornFirst defaultWear = None"
  using TransferOutfits_returns [of g outfit "- 2147483648" "Some dest" mostWornFirst defaultWear]
  by (cases "TransferOutfits g outfit (- 2147483648) (Some dest) mostWornFirst defaultWear") auto

lemma units_at_nonneg: "no_empty_buckets g \<Longrightarrow> 0 \<le> units_at g outfit w"
  using bucket_positive [of g outfit w]
  by (cases "bucket g outfit w") (simp_all add: units_at_def less_imp_le)

lemma positive_nonempty_total: "positive es \<Longrightarrow> es \<noteq> [] \<Longrightarrow> 0 < sum_list (map snd es)"
proof (cases es)
  case Nil
  assume "es \<noteq> []"
  then show ?thesis using Nil by simp
next
  case (Cons e rest)
  assume "positive es"
  then have "0 < snd e" and "positive rest" using Cons by (simp_all add: positive_def)
  then show ?thesis using Cons positive_total [of rest] by simp
qed

lemma total_units_nonneg: "no_empty_buckets g \<Longrightarrow> 0 \<le> total_units g outfit"
proof (cases "map_find g outfit")
  case None
  then show ?thesis by (simp add: total_units_def)
next
  case (Some inner)
  assume "no_empty_buckets g"
  then have "positive inner" using Some no_empty_buckets_ledger by blast
  then show ?thesis using Some positive_total by (simp add: total_units_def)
qed

lemma no_units_of_absent:
  assumes "no_empty_buckets g" "total_units g outfit = 0"
  shows "units_at g outfit w = 0"
proof (cases "map_find g outfit")
  case None
  then show ?thesis by (simp add: units_at_def bucket_def)
next
  case (Some inner)
  have "0 < sum_list (map snd inner)"
    using no_empty_buckets_ledger [OF assms(1) Some] positive_nonempty_total by blast
  then show ?thesis using assms(2) Some by (simp add: total_units_def)
qed

lemma RemoveOutfit_to_destination:
  assumes g: "is_group g" "no_empty_buckets g" and d: "is_group dest" "no_empty_buckets dest"
    and count: "0 < count" "count \<le> 2147483647"
    and fit: "deposits_fit dest outfit (removal_plan g outfit count mostWornFirst)"
    and run: "RemoveOutfit g outfit count mostWornFirst (Some dest) = (g', to', removed)"
  obtains dest' moved where
    "to' = Some dest'"
    "is_group g'" "no_empty_buckets g'" "is_group dest'" "no_empty_buckets dest'"
    "removed = min count (total_units g outfit)"
    "\<forall>outfit' w. units_at g' outfit' w = units_at g outfit' w - (if outfit' = outfit then moved w else 0)"
    "\<forall>outfit' w. units_at dest' outfit' w = units_at dest outfit' w + (if outfit' = outfit then moved w else 0)"
    "\<forall>outfit'. total_units g' outfit' = total_units g outfit' - (if outfit' = outfit then removed else 0)"
    "\<forall>outfit'. total_units dest' outfit' = total_units dest outfit' + (if outfit' = outfit then removed else 0)"
proof -
  obtain p where
    p: "p = removal_plan g outfit count mostWornFirst"
    and g': "is_group g'" "no_empty_buckets g'"
    and r: "removed = min count (total_units g outfit)"
    and mt: "moved_total p = removed"
    and u: "\<forall>outfit' w. units_at g' outfit' w =
        units_at g outfit' w - (if outfit' = outfit then moved_at p w else 0)"
    and t: "\<forall>outfit'. total_units g' outfit' =
        total_units g outfit' - (if outfit' = outfit then removed else 0)"
    and to': "to' = map_option (deposits outfit p) (Some dest)"
    and dp: "distinct (map fst p)"
    and mv: "\<forall>x\<in>set p. is_int32 (fst x) \<and> 0 < snd (snd x) \<and> snd (snd x) \<le> 2147483647"
    using RemoveOutfit_effect [OF g count run] by metis
  have fits: "deposits_fit dest outfit p" using fit p by simp
  note dep = deposits_effect [OF d(1) dp mv fits]
  show ?thesis
  proof (rule that [of "deposits outfit p dest" "moved_at p"])
    show "to' = Some (deposits outfit p dest)" using to' by simp
    show "is_group g'" "no_empty_buckets g'" by (rule g')+
    show "is_group (deposits outfit p dest)" using dep by blast
    show "no_empty_buckets (deposits outfit p dest)" using dep d(2) by blast
    show "removed = min count (total_units g outfit)" by (rule r)
    show "\<forall>outfit' w. units_at g' outfit' w =
        units_at g outfit' w - (if outfit' = outfit then moved_at p w else 0)" by (rule u)
    show "\<forall>outfit' w. units_at (deposits outfit p dest) outfit' w =
        units_at dest outfit' w + (if outfit' = outfit then moved_at p w else 0)"
      using dep by blast
    show "\<forall>outfit'. total_units g' outfit' =
        total_units g outfit' - (if outfit' = outfit then removed else 0)" by (rule t)
    show "\<forall>outfit'. total_units (deposits outfit p dest) outfit' =
        total_units dest outfit' + (if outfit' = outfit then removed else 0)"
      using dep mt by simp
  qed
qed

subsection \<open>The invariant is kept\<close>

lemma is_group_IncrementWear:
  assumes "is_group g"
  shows "is_group (IncrementWear g v)"
proof -
  have keys: "map fst (IncrementWear g v) = map fst g"
    by (simp add: IncrementWear_def split_beta comp_def)
  have "\<forall>e\<in>set (IncrementWear g v). is_ledger (snd e)"
  proof
    fix e assume "e \<in> set (IncrementWear g v)"
    then obtain outfit inner where e: "e = (outfit, shift_ledger v inner)" and m: "(outfit, inner) \<in> set g"
      by (auto simp: IncrementWear_def)
    have "is_ledger inner" using assms m by (auto simp: is_group_def list_all_iff)
    then show "is_ledger (snd e)" using e by (simp add: is_ledger_shift_ledger)
  qed
  then show ?thesis using assms keys by (simp add: is_group_def is_map_def list_all_iff)
qed

lemma no_empty_buckets_IncrementWear:
  assumes "is_group g" "no_empty_buckets g"
  shows "no_empty_buckets (IncrementWear g v)"
proof -
  have "\<forall>e\<in>set (IncrementWear g v). snd e \<noteq> [] \<and> positive (snd e)"
  proof
    fix e assume "e \<in> set (IncrementWear g v)"
    then obtain outfit inner where e: "e = (outfit, shift_ledger v inner)" and m: "(outfit, inner) \<in> set g"
      by (auto simp: IncrementWear_def)
    have "is_ledger inner" using assms(1) m by (auto simp: is_group_def list_all_iff)
    then have s: "set (shift_ledger v inner) = (\<lambda>(k, q). (int32 (k + v), q)) ` set inner"
      by (rule shift_ledger_entries(2))
    have i: "inner \<noteq> [] \<and> positive inner" using assms(2) m by (auto simp: no_empty_buckets_def list_all_iff)
    then have "set (shift_ledger v inner) \<noteq> {}" using s by simp
    then have "shift_ledger v inner \<noteq> []" by auto
    moreover have "positive (shift_ledger v inner)"
      using i s by (auto simp: positive_def list_all_iff)
    ultimately show "snd e \<noteq> [] \<and> positive (snd e)" using e by simp
  qed
  then show ?thesis by (simp add: no_empty_buckets_def list_all_iff)
qed

lemma sound_AddOutfit:
  assumes "sound g" "add_within_stock g outfit count wear"
  shows "sound (fst (AddOutfit g outfit count wear))"
proof -
  have g: "is_group g" "no_empty_buckets g" using assms(1) by (simp_all add: sound_def)
  have r: "is_int32 count" "is_int32 wear" using assms(2) by (simp_all add: add_within_stock_def)
  have "no_empty_buckets (fst (AddOutfit g outfit count wear))"
    using g(2) assms(2) by (rule no_empty_buckets_AddOutfit)
  moreover have "is_group (fst (AddOutfit g outfit count wear))"
    using g(1) r by (rule is_group_AddOutfit)
  ultimately show ?thesis by (simp add: sound_def)
qed

lemma sound_store_ledger:
  "sound g \<Longrightarrow> is_ledger inner \<Longrightarrow> positive inner \<Longrightarrow> sound (store_ledger outfit inner g)"
  by (simp add: sound_def is_group_store_ledger no_empty_buckets_store_ledger)

lemma sound_RemoveOutfit:
  assumes g: "sound g" and h: "sound h"
    and ok: "remove_admissible g h outfit count mostWornFirst toOther"
  shows "case RemoveOutfit g outfit count mostWornFirst (if toOther then Some h else None) of
           (g', None, removed) \<Rightarrow> sound g' \<and> \<not> toOther
         | (g', Some h', removed) \<Rightarrow> sound g' \<and> sound h' \<and> toOther"
proof (cases "map_find g outfit")
  case None
  then show ?thesis using g h by (simp add: RemoveOutfit_absent)
next
  case (Some inner)
  have G: "is_group g" "no_empty_buckets g" using g by (simp_all add: sound_def)
  have H: "is_group h" "no_empty_buckets h" using h by (simp_all add: sound_def)
  have c: "is_int32 count" using ok by (simp add: remove_admissible_def)
  then have le: "count \<le> 2147483647" by (simp add: is_int32_def)
  have l: "is_ledger inner" using G(1) Some by (rule is_group_is_ledger)
  have pos: "positive inner" using no_empty_buckets_ledger [OF G(2) Some] by simp
  obtain g' to' removed where
    run: "RemoveOutfit g outfit count mostWornFirst (if toOther then Some h else None) = (g', to', removed)"
    by (rule prod_cases3)
  show ?thesis
  proof (cases "0 < count")
    case True
    show ?thesis
    proof (cases toOther)
      case yes: True
      then have r: "RemoveOutfit g outfit count mostWornFirst (Some h) = (g', to', removed)"
        using run by simp
      have fit: "deposits_fit h outfit (removal_plan g outfit count mostWornFirst)"
        using ok Some True yes by (simp add: remove_admissible_def)
      obtain h' where "to' = Some h'" "is_group g'" "no_empty_buckets g'" "is_group h'" "no_empty_buckets h'"
        by (rule RemoveOutfit_to_destination [OF G H True le fit r]) blast
      then show ?thesis using run yes by (simp add: sound_def)
    next
      case no: False
      then have r: "RemoveOutfit g outfit count mostWornFirst None = (g', to', removed)"
        using run by simp
      obtain p where "is_group g'" "no_empty_buckets g'" "to' = map_option (deposits outfit p) None"
        using RemoveOutfit_effect [OF G True le r] by metis
      then show ?thesis using run no by (simp add: sound_def)
    qed
  next
    case False
    then have np: "count \<le> 0" by simp
    show ?thesis
    proof (cases mostWornFirst)
      case most: True
      obtain wear q0 where last: "last inner = (wear, q0)" by (cases "last inner")
      have adm: "q0 - count \<le> 2147483647" "toOther \<longrightarrow> add_within_stock h outfit count wear"
        using ok Some False most last by (simp_all add: remove_admissible_def)
      have fit: "snd (last inner) - count \<le> 2147483647" using adm(1) last by simp
      obtain k q where kq: "last inner = (k, q)" and q: "0 < q" and k: "is_int32 k"
        and res: "RemoveOutfit g outfit count True (if toOther then Some h else None) =
          (store_ledger outfit (map_assign k (q - count) inner) g,
           deposit (if toOther then Some h else None) outfit count k, count)"
        by (rule RemoveOutfit_none_wanted [OF G np c Some fit,
              where to = "if toOther then Some h else None"]) blast
      have same: "k = wear" "q = q0" using kq last by simp_all
      have "is_int32 (q - count)" using adm(1) same q np unfolding is_int32_def by simp
      then have "is_ledger (map_assign k (q - count) inner)" using l k by (simp add: is_ledger_assign)
      moreover have "positive (map_assign k (q - count) inner)"
        using pos q np by (simp add: positive_assign)
      ultimately have sg: "sound (store_ledger outfit (map_assign k (q - count) inner) g)"
        using g by (simp add: sound_store_ledger)
      show ?thesis
      proof (cases toOther)
        case yes: True
        then have "sound (fst (AddOutfit h outfit count k))"
          using h adm(2) same by (simp add: sound_AddOutfit)
        then show ?thesis using res sg yes most by (simp add: deposit_def)
      next
        case no: False
        then show ?thesis using res sg most by (simp add: deposit_def)
      qed
    next
      case least: False
      have none: "allotment count inner = []" using np by (rule allotment_none_wanted)
      have "RemoveOutfit g outfit count False (if toOther then Some h else None) =
          (store_ledger outfit inner g, if toOther then Some h else None, 0)"
        using RemoveOutfit_least_worn [OF Some le pos ledger_quantities [OF l],
            of "if toOther then Some h else None"]
        by (simp add: none write_back_erasing_def deposit_all_def moved_total_def)
      moreover have "sound (store_ledger outfit inner g)" using g l pos by (rule sound_store_ledger)
      ultimately show ?thesis using least h by simp
    qed
  qed
qed

text \<open>An admissible call of \<open>TransferOutfits\<close> returns, and keeps the invariant.\<close>

lemma sound_TransferOutfits:
  assumes g: "sound g" and h: "sound h"
    and ok: "transfer_admissible g h outfit count toOther mostWornFirst defaultWear"
  shows "\<exists>r. TransferOutfits g outfit count (if toOther then Some h else None) mostWornFirst defaultWear = Some r
       \<and> (case r of
             (g', None, moved) \<Rightarrow> sound g' \<and> \<not> toOther
           | (g', Some h', moved) \<Rightarrow> sound g' \<and> sound h' \<and> toOther)"
proof (cases "count = 0 \<or> outfit = nullptr")
  case True
  then show ?thesis using g h by (simp add: TransferOutfits_nothing)
next
  case False
  then have outfit: "outfit \<noteq> nullptr" and nz: "count \<noteq> 0" by simp_all
  have c: "is_int32 count" using ok by (simp add: transfer_admissible_def)
  show ?thesis
  proof (cases "0 < count")
    case True
    have adm: "remove_admissible g h outfit count mostWornFirst toOther"
      using ok False True by (simp add: transfer_admissible_def)
    have "TransferOutfits g outfit count (if toOther then Some h else None) mostWornFirst defaultWear =
        Some (RemoveOutfit g outfit count mostWornFirst (if toOther then Some h else None))"
      using TransferOutfits_forward [OF True outfit] TransferOutfits_to_nowhere [OF True outfit]
      by (cases toOther) simp_all
    then show ?thesis using sound_RemoveOutfit [OF g h adm] by simp
  next
    case False
    then have neg: "count < 0" using nz by simp
    have "count \<noteq> - 2147483648" using ok nz outfit neg by (simp add: transfer_admissible_def)
    then have low: "- 2147483648 < count" using c by (simp add: is_int32_def)
    show ?thesis
    proof (cases toOther)
      case no: False
      have "add_within_stock g outfit (- count) defaultWear"
        using ok nz outfit neg no by (simp add: transfer_admissible_def)
      then have "sound (fst (AddOutfit g outfit (- count) defaultWear))"
        using g by (simp add: sound_AddOutfit)
      then show ?thesis using no by (simp add: TransferOutfits_from_nowhere [OF neg low outfit])
    next
      case yes: True
      have adm: "remove_admissible h g outfit (- count) mostWornFirst True"
        using ok nz outfit neg yes by (simp add: transfer_admissible_def)
      obtain h' to' moved where
        r: "RemoveOutfit h outfit (- count) mostWornFirst (Some g) = (h', to', moved)"
        by (rule prod_cases3)
      have "case RemoveOutfit h outfit (- count) mostWornFirst (if True then Some g else None) of
           (g', None, removed) \<Rightarrow> sound g' \<and> \<not> True
         | (g', Some h', removed) \<Rightarrow> sound g' \<and> sound h' \<and> True"
        by (rule sound_RemoveOutfit [OF h g adm])
      then obtain g' where to': "to' = Some g'" and s: "sound h'" "sound g'"
        using r by (cases to') simp_all
      have "TransferOutfits g outfit count (Some h) mostWornFirst defaultWear =
          Some (g', Some h', int32 (- moved))"
        using r to' by (simp add: TransferOutfits_backward [OF neg low outfit])
      then show ?thesis using yes s by simp
    qed
  qed
qed

lemma sound_perform:
  assumes "sound g" "sound h" "admissible c (g, h)"
  shows "\<exists>g' h'. perform c (g, h) = Some (g', h') \<and> sound g' \<and> sound h'"
proof (cases c)
  case (CallAddOutfit outfit count wear)
  then show ?thesis using assms sound_AddOutfit [of g outfit count wear] by simp
next
  case (CallRemoveOutfit outfit count mostWornFirst toOther)
  then have "remove_admissible g h outfit count mostWornFirst toOther" using assms(3) by simp
  then show ?thesis
    using sound_RemoveOutfit [OF assms(1,2), where count = count and outfit = outfit
        and mostWornFirst = mostWornFirst and toOther = toOther] assms(2)
      CallRemoveOutfit
    by (auto split: prod.splits option.splits)
next
  case (CallTransferOutfits outfit count toOther mostWornFirst defaultWear)
  then have "transfer_admissible g h outfit count toOther mostWornFirst defaultWear"
    using assms(3) by simp
  then show ?thesis
    using sound_TransferOutfits [OF assms(1,2), where count = count and outfit = outfit
        and mostWornFirst = mostWornFirst and toOther = toOther and defaultWear = defaultWear]
      assms(2) CallTransferOutfits
    by (auto split: prod.splits option.splits)
next
  case (CallIncrementWear v)
  then show ?thesis
    using assms by (auto simp: sound_def is_group_IncrementWear no_empty_buckets_IncrementWear)
next
  case CallClear
  then show ?thesis
    using assms by (auto simp: sound_def Clear_def is_group_def is_map_def no_empty_buckets_def)
qed

lemma sound_step:
  assumes "sound a" "sound b"
    "admissible c (case r of First \<Rightarrow> (a, b) | Second \<Rightarrow> (b, a))"
  shows "\<exists>a' b'. step (r, c) (a, b) = Some (a', b') \<and> sound a' \<and> sound b'"
proof (cases r)
  case First
  then show ?thesis using sound_perform [of a b c] assms by simp
next
  case Second
  then obtain b' a' where "perform c (b, a) = Some (b', a')" "sound b'" "sound a'"
    using sound_perform [of b a c] assms by auto
  then show ?thesis using Second by simp
qed

lemma sound_run:
  "sound a \<Longrightarrow> sound b \<Longrightarrow> disciplined calls (a, b) \<Longrightarrow>
   \<exists>a' b'. run calls (a, b) = Some (a', b') \<and> sound a' \<and> sound b'"
proof (induction calls arbitrary: a b)
  case Nil
  then show ?case by simp
next
  case (Cons x calls)
  obtain r c where x: "x = (r, c)" by (cases x)
  have adm: "admissible c (case r of First \<Rightarrow> (a, b) | Second \<Rightarrow> (b, a))"
    using Cons.prems(3) x by simp
  obtain a' b' where st: "step (r, c) (a, b) = Some (a', b')" and s: "sound a'" "sound b'"
    using sound_step [OF Cons.prems(1,2) adm] by blast
  have "disciplined calls (a', b')" using Cons.prems(3) x st by simp
  then have "\<exists>a'' b''. run calls (a', b') = Some (a'', b'') \<and> sound a'' \<and> sound b''"
    using s Cons.IH by blast
  then show ?case using st by (simp add: x)
qed

subsection \<open>Comparing iterators\<close>

lemma operator_ne_same_group:
  "myGroup a = myGroup b \<Longrightarrow>
   operator_ne a b =
     (\<not> ((isEnd a \<and> isEnd b) \<or> (outerIter a = outerIter b \<and> innerIter a = innerIter b)))"
  by (auto simp: operator_ne_def)

section \<open>Rounding\<close>

lemma nearest_even_of_int: "nearest_even (of_int n) = n"
  by (simp add: nearest_even_def)

lemma nearest_even_bounds: "\<lfloor>x\<rfloor> \<le> nearest_even x \<and> nearest_even x \<le> \<lfloor>x\<rfloor> + 1"
  by (simp add: nearest_even_def)

lemma nearest_even_mono:
  assumes "x \<le> y"
  shows "nearest_even x \<le> nearest_even y"
proof (cases "\<lfloor>x\<rfloor> < \<lfloor>y\<rfloor>")
  case True
  have "nearest_even x \<le> \<lfloor>x\<rfloor> + 1" using nearest_even_bounds by blast
  also have "\<dots> \<le> \<lfloor>y\<rfloor>" using True by simp
  also have "\<dots> \<le> nearest_even y" using nearest_even_bounds by blast
  finally show ?thesis .
next
  case False
  have "\<lfloor>x\<rfloor> \<le> \<lfloor>y\<rfloor>" using assms by (rule floor_mono)
  then have same: "\<lfloor>x\<rfloor> = \<lfloor>y\<rfloor>" using False by simp
  then have "x - of_int \<lfloor>x\<rfloor> \<le> y - of_int \<lfloor>y\<rfloor>" using assms by simp
  then show ?thesis using same by (auto simp: nearest_even_def)
qed

lemma of_int_div_mod:
  "real_of_int m = real_of_int (m div 2 ^ k) * 2 ^ k + real_of_int (m mod 2 ^ k)"
proof -
  have "real_of_int m = real_of_int ((m div 2 ^ k) * 2 ^ k + m mod 2 ^ k)"
    by (simp only: div_mult_mod_eq)
  then show ?thesis by (simp only: of_int_add of_int_mult of_int_power of_int_numeral)
qed

lemma fraction_less_half: "((r::real) / 2 ^ k < 1 / 2) = (2 * r < 2 ^ k)"
  by (simp add: pos_divide_less_eq mult.commute)

lemma half_less_fraction: "(1 / 2 < (r::real) / 2 ^ k) = (2 ^ k < 2 * r)"
  by (simp add: pos_less_divide_eq mult.commute)

lemma round_to_even_nearest: "round_to_even m k = nearest_even (of_int m / 2 ^ k)"
proof -
  let ?x = "real_of_int m / 2 ^ k"
  let ?r = "m mod 2 ^ k"
  have fl: "\<lfloor>?x\<rfloor> = m div 2 ^ k"
    using floor_divide_of_int_eq [of m "2 ^ k", where ?'a = real] by simp
  have fr: "?x - of_int \<lfloor>?x\<rfloor> = real_of_int ?r / 2 ^ k"
    unfolding fl using of_int_div_mod [of m k] by (simp add: field_simps)
  have lt: "(?x - of_int \<lfloor>?x\<rfloor> < 1 / 2) = (2 * ?r < 2 ^ k)"
  proof -
    have "(real_of_int ?r / 2 ^ k < 1 / 2) = (2 * real_of_int ?r < 2 ^ k)"
      by (rule fraction_less_half)
    also have "\<dots> = (real_of_int (2 * ?r) < real_of_int (2 ^ k))" by simp
    also have "\<dots> = (2 * ?r < 2 ^ k)" by (rule of_int_less_iff)
    finally show ?thesis unfolding fr .
  qed
  have gt: "(1 / 2 < ?x - of_int \<lfloor>?x\<rfloor>) = (2 ^ k < 2 * ?r)"
  proof -
    have "(1 / 2 < real_of_int ?r / 2 ^ k) = (2 ^ k < 2 * real_of_int ?r)"
      by (rule half_less_fraction)
    also have "\<dots> = (real_of_int (2 ^ k) < real_of_int (2 * ?r))" by simp
    also have "\<dots> = (2 ^ k < 2 * ?r)" by (rule of_int_less_iff)
    finally show ?thesis unfolding fr .
  qed
  show ?thesis
    by (simp only: round_to_even_def nearest_even_def Let_def lt gt) (simp only: fl)
qed

lemma two_powi_add: "(2::real) powi (a + b) = 2 powi a * 2 powi b"
  by (simp add: power_int_add)

lemma two_powi_mono: "a \<le> b \<Longrightarrow> (2::real) powi a \<le> 2 powi b"
  by (simp add: power_int_increasing)

lemma two_powi_nat: "0 \<le> a \<Longrightarrow> (2::real) powi a = 2 ^ nat a"
  by (rule power_int_nonneg_exp)

lemma value_of_simp: "value_of (Double m e) = of_int m * 2 powi e"
  by (simp add: value_of_def)

lemma binade_bounds:
  assumes "mantissa d \<noteq> 0"
  shows "2 powi (binade d - 1) \<le> \<bar>value_of d\<bar>" and "\<bar>value_of d\<bar> < 2 powi binade d"
proof -
  let ?a = "\<bar>mantissa d\<bar>"
  let ?b = "bitlen ?a"
  have a: "0 < ?a" using assms by simp
  then have b: "1 \<le> ?b" using bitlen_eq_zero_iff [of ?a] bitlen_nonneg [of ?a] by linarith
  have lo: "2 ^ nat (?b - 1) \<le> ?a" and hi: "?a < 2 ^ nat ?b"
    using bitlen_bounds [OF a] by simp_all
  have lo': "(2::real) ^ nat (?b - 1) \<le> real_of_int ?a"
    using lo by (metis of_int_le_iff of_int_numeral of_int_power)
  have hi': "real_of_int ?a < 2 ^ nat ?b"
    using hi by (metis of_int_less_iff of_int_numeral of_int_power)
  have v: "\<bar>value_of d\<bar> = real_of_int ?a * 2 powi exponent d"
    by (simp add: value_of_def abs_mult)
  have p: "(0::real) < 2 powi exponent d" by simp
  have "(2::real) powi (binade d - 1) = 2 powi (?b - 1) * 2 powi exponent d"
    using two_powi_add [of "?b - 1" "exponent d"] by (simp add: binade_def algebra_simps)
  also have "\<dots> = 2 ^ nat (?b - 1) * 2 powi exponent d"
    using b by (simp add: two_powi_nat)
  also have "\<dots> \<le> real_of_int ?a * 2 powi exponent d"
    using lo' p by (simp add: mult_right_mono)
  finally show "2 powi (binade d - 1) \<le> \<bar>value_of d\<bar>" using v by simp
  have "real_of_int ?a * 2 powi exponent d < 2 ^ nat ?b * 2 powi exponent d"
    using hi' p by (simp add: mult_strict_right_mono)
  also have "\<dots> = 2 powi ?b * 2 powi exponent d"
    using b by (simp add: two_powi_nat)
  also have "\<dots> = 2 powi binade d"
    using two_powi_add [of ?b "exponent d"] by (simp add: binade_def)
  finally show "\<bar>value_of d\<bar> < 2 powi binade d" using v by simp
qed

lemma value_round_double:
  assumes "mantissa d \<noteq> 0"
  shows "value_of (round_double d) = round_at (binade d) (value_of d)"
proof -
  obtain m e where d: "d = Double m e" by (cases d)
  let ?k = "bitlen \<bar>m\<bar> - 53"
  have q: "binade d - 53 = e + ?k" by (simp add: binade_def d)
  have split: "(2::real) powi (e + ?k) = 2 powi e * 2 powi ?k" by (rule two_powi_add)
  have scaled: "value_of d / 2 powi (e + ?k) = of_int m / 2 powi ?k"
    unfolding split by (simp add: d value_of_simp)
  show ?thesis
  proof (cases "?k \<le> 0")
    case True
    have "(2::real) powi ?k * 2 powi (- ?k) = 1"
      using two_powi_add [of ?k "- ?k"] by simp
    then have inv: "1 / (2::real) powi ?k = 2 powi (- ?k)" by (simp add: field_simps)
    have "real_of_int m / 2 powi ?k = real_of_int m * 2 powi (- ?k)"
      using inv by (simp add: field_simps)
    also have "\<dots> = real_of_int m * 2 ^ nat (- ?k)" using True by (simp add: two_powi_nat)
    also have "\<dots> = real_of_int (m * 2 ^ nat (- ?k))" by simp
    finally have int: "real_of_int m / 2 powi ?k = real_of_int (m * 2 ^ nat (- ?k))" .
    have "round_at (binade d) (value_of d) = real_of_int (m * 2 ^ nat (- ?k)) * 2 powi (e + ?k)"
      unfolding round_at_def q scaled int nearest_even_of_int ..
    also have "\<dots> = (real_of_int m / 2 powi ?k) * (2 powi e * 2 powi ?k)"
      unfolding int split ..
    also have "\<dots> = real_of_int m * 2 powi e" by simp
    finally show ?thesis using True by (simp add: round_double_def d value_of_simp)
  next
    case False
    then have k: "0 \<le> ?k" by simp
    have "round_at (binade d) (value_of d) =
        of_int (nearest_even (of_int m / 2 ^ nat ?k)) * 2 powi (e + ?k)"
      unfolding round_at_def q scaled two_powi_nat [OF k] ..
    then show ?thesis
      using False by (simp add: round_double_def d value_of_simp round_to_even_nearest Let_def)
  qed
qed

lemma value_round_double_zero: "mantissa d = 0 \<Longrightarrow> value_of (round_double d) = 0"
  by (simp add: round_double_def value_of_def)

lemma round_at_mono: "v \<le> w \<Longrightarrow> round_at p v \<le> round_at p w"
proof -
  assume "v \<le> w"
  then have "v / 2 powi (p - 53) \<le> w / 2 powi (p - 53)"
    by (simp add: divide_right_mono)
  then have "nearest_even (v / 2 powi (p - 53)) \<le> nearest_even (w / 2 powi (p - 53))"
    by (rule nearest_even_mono)
  then show ?thesis by (simp add: round_at_def mult_right_mono)
qed

lemma round_at_zero: "round_at p 0 = 0"
  using nearest_even_of_int [of 0] by (simp add: round_at_def)

lemma round_at_power:
  assumes "p - 53 \<le> q"
  shows "round_at p (2 powi q) = 2 powi q" and "round_at p (- (2 powi q)) = - (2 powi q)"
proof -
  let ?n = "nat (q - (p - 53))"
  have "(2::real) powi q = 2 powi (q - (p - 53)) * 2 powi (p - 53)"
    using two_powi_add [of "q - (p - 53)" "p - 53"] by simp
  also have "(2::real) powi (q - (p - 53)) = 2 ^ ?n"
    using assms by (simp add: two_powi_nat)
  finally have eq: "(2::real) powi q = 2 ^ ?n * 2 powi (p - 53)" .
  have "(2::real) powi q / 2 powi (p - 53) = real_of_int (2 ^ ?n)"
    unfolding eq by simp
  then show "round_at p (2 powi q) = 2 powi q"
    unfolding round_at_def by (simp only: nearest_even_of_int) (simp add: eq)
  have "- ((2::real) powi q) / 2 powi (p - 53) = real_of_int (- (2 ^ ?n))"
    unfolding eq by simp
  then show "round_at p (- (2 powi q)) = - (2 powi q)"
    unfolding round_at_def by (simp only: nearest_even_of_int) (simp add: eq)
qed

lemma value_of_zero_iff: "value_of d = 0 \<longleftrightarrow> mantissa d = 0"
  by (simp add: value_of_def)

lemma round_double_positive:
  assumes "0 < value_of d"
  shows "2 powi (binade d - 1) \<le> value_of (round_double d)"
    and "value_of (round_double d) \<le> 2 powi binade d"
proof -
  have m: "mantissa d \<noteq> 0" using assms by (auto simp: value_of_def)
  have r: "value_of (round_double d) = round_at (binade d) (value_of d)"
    using m by (rule value_round_double)
  have lo: "2 powi (binade d - 1) \<le> value_of d" and hi: "value_of d \<le> 2 powi binade d"
    using binade_bounds [OF m] assms by simp_all
  have "round_at (binade d) (2 powi (binade d - 1)) \<le> round_at (binade d) (value_of d)"
    using lo by (rule round_at_mono)
  then show "2 powi (binade d - 1) \<le> value_of (round_double d)"
    using r round_at_power(1) [of "binade d" "binade d - 1"] by simp
  have "round_at (binade d) (value_of d) \<le> round_at (binade d) (2 powi binade d)"
    using hi by (rule round_at_mono)
  then show "value_of (round_double d) \<le> 2 powi binade d"
    using r round_at_power(1) [of "binade d" "binade d"] by simp
qed

lemma round_double_negative:
  assumes "value_of d < 0"
  shows "- (2 powi binade d) \<le> value_of (round_double d)"
    and "value_of (round_double d) \<le> - (2 powi (binade d - 1))"
proof -
  have m: "mantissa d \<noteq> 0" using assms by (auto simp: value_of_def)
  have r: "value_of (round_double d) = round_at (binade d) (value_of d)"
    using m by (rule value_round_double)
  have lo: "- (2 powi binade d) \<le> value_of d" and hi: "value_of d \<le> - (2 powi (binade d - 1))"
    using binade_bounds [OF m] assms by simp_all
  have "round_at (binade d) (- (2 powi binade d)) \<le> round_at (binade d) (value_of d)"
    using lo by (rule round_at_mono)
  then show "- (2 powi binade d) \<le> value_of (round_double d)"
    using r round_at_power(2) [of "binade d" "binade d"] by simp
  have "round_at (binade d) (value_of d) \<le> round_at (binade d) (- (2 powi (binade d - 1)))"
    using hi by (rule round_at_mono)
  then show "value_of (round_double d) \<le> - (2 powi (binade d - 1))"
    using r round_at_power(2) [of "binade d" "binade d - 1"] by simp
qed

lemma round_double_mono:
  assumes le: "value_of a \<le> value_of b"
  shows "value_of (round_double a) \<le> value_of (round_double b)"
proof -
  have pos: "0 < (2::real) powi n" for n by simp
  consider (neg_nonneg) "value_of a < 0" "0 \<le> value_of b"
    | (neg_neg) "value_of a < 0" "value_of b < 0"
    | (zero) "value_of a = 0"
    | (pos) "0 < value_of a"
    by linarith
  then show ?thesis
  proof cases
    case neg_nonneg
    have "value_of (round_double a) \<le> 0"
      using round_double_negative(2) [OF neg_nonneg(1)] pos [of "binade a - 1"] by linarith
    moreover have "0 \<le> value_of (round_double b)"
    proof (cases "value_of b = 0")
      case True
      then show ?thesis by (simp add: value_round_double_zero value_of_zero_iff)
    next
      case False
      then have "0 < value_of b" using neg_nonneg(2) by simp
      then show ?thesis
        using round_double_positive(1) [of b] pos [of "binade b - 1"] by linarith
    qed
    ultimately show ?thesis by simp
  next
    case neg_neg
    have ma: "mantissa a \<noteq> 0" and mb: "mantissa b \<noteq> 0"
      using neg_neg by (auto simp: value_of_def)
    have "binade b \<le> binade a"
    proof (rule ccontr)
      assume "\<not> binade b \<le> binade a"
      then have "binade a \<le> binade b - 1" by simp
      then have "(2::real) powi binade a \<le> 2 powi (binade b - 1)" by (rule two_powi_mono)
      then show False
        using binade_bounds(2) [OF ma] binade_bounds(1) [OF mb] neg_neg le by linarith
    qed
    then consider "binade a = binade b" | "binade b \<le> binade a - 1" by linarith
    then show ?thesis
    proof cases
      case 1
      then show ?thesis
        using round_at_mono [OF le, of "binade a"] value_round_double [OF ma] value_round_double [OF mb]
        by simp
    next
      case 2
      then have "(2::real) powi binade b \<le> 2 powi (binade a - 1)" by (rule two_powi_mono)
      then show ?thesis
        using round_double_negative(2) [OF neg_neg(1)] round_double_negative(1) [OF neg_neg(2)]
        by linarith
    qed
  next
    case zero
    then have "value_of (round_double a) = 0"
      by (simp add: value_round_double_zero value_of_zero_iff)
    moreover have "0 \<le> value_of (round_double b)"
    proof (cases "value_of b = 0")
      case True
      then show ?thesis by (simp add: value_round_double_zero value_of_zero_iff)
    next
      case False
      then have "0 < value_of b" using zero le by simp
      then show ?thesis
        using round_double_positive(1) [of b] pos [of "binade b - 1"] by linarith
    qed
    ultimately show ?thesis by simp
  next
    case pos
    then have pb: "0 < value_of b" using le by simp
    have ma: "mantissa a \<noteq> 0" and mb: "mantissa b \<noteq> 0"
      using pos pb by (auto simp: value_of_def)
    have "binade a \<le> binade b"
    proof (rule ccontr)
      assume "\<not> binade a \<le> binade b"
      then have "binade b \<le> binade a - 1" by simp
      then have "(2::real) powi binade b \<le> 2 powi (binade a - 1)" by (rule two_powi_mono)
      then show False
        using binade_bounds(2) [OF mb] binade_bounds(1) [OF ma] pos pb le by linarith
    qed
    then consider "binade a = binade b" | "binade a \<le> binade b - 1" by linarith
    then show ?thesis
    proof cases
      case 1
      then show ?thesis
        using round_at_mono [OF le, of "binade a"] value_round_double [OF ma] value_round_double [OF mb]
        by simp
    next
      case 2
      then have "(2::real) powi binade a \<le> 2 powi (binade b - 1)" by (rule two_powi_mono)
      then show ?thesis
        using round_double_positive(2) [OF pos] round_double_positive(1) [OF pb]
        by linarith
    qed
  qed
qed

section \<open>The arithmetic of doubles\<close>

lemma round_double_nonneg: "0 \<le> value_of d \<Longrightarrow> 0 \<le> value_of (round_double d)"
  using round_double_mono [of "Double 0 0" d]
  by (simp add: value_of_simp value_round_double_zero)

lemma round_double_representable: "bitlen \<bar>m\<bar> \<le> 53 \<Longrightarrow> round_double (Double m e) = Double m e"
  by (simp add: round_double_def)

lemma aligned_values:
  assumes "aligned a b = (x, y, e)"
  shows "value_of a = of_int x * 2 powi e" and "value_of b = of_int y * 2 powi e"
proof -
  have e: "e = min (exponent a) (exponent b)"
    and x: "x = mantissa a * 2 ^ nat (exponent a - e)"
    and y: "y = mantissa b * 2 ^ nat (exponent b - e)"
    using assms by (auto simp: aligned_def Let_def)
  have shift: "real_of_int (m * 2 ^ nat (f - e)) * 2 powi e = real_of_int m * 2 powi f"
    if "e \<le> f" for m f
  proof -
    have "(2::real) powi f = 2 powi (f - e) * 2 powi e"
      using two_powi_add [of "f - e" e] by simp
    also have "(2::real) powi (f - e) = 2 ^ nat (f - e)" using that by (simp add: two_powi_nat)
    finally show ?thesis by simp
  qed
  have ea: "e \<le> exponent a" and eb: "e \<le> exponent b" using e by simp_all
  have "real_of_int x * 2 powi e = real_of_int (mantissa a) * 2 powi exponent a"
    unfolding x using ea by (rule shift)
  then show "value_of a = of_int x * 2 powi e" by (simp only: value_of_def)
  have "real_of_int y * 2 powi e = real_of_int (mantissa b) * 2 powi exponent b"
    unfolding y using eb by (rule shift)
  then show "value_of b = of_int y * 2 powi e" by (simp only: value_of_def)
qed

lemma double_less_iff: "double_less a b \<longleftrightarrow> value_of a < value_of b"
proof -
  obtain x y e where al: "aligned a b = (x, y, e)" by (rule prod_cases3)
  have "(0::real) < 2 powi e" by simp
  then have "(real_of_int x * 2 powi e < real_of_int y * 2 powi e) = (x < y)"
    by (simp add: mult_less_cancel_right_pos del: zero_less_power_int)
  then show ?thesis using aligned_values [OF al] al by (simp add: double_less_def)
qed

lemma value_double_max: "value_of (double_max a b) = max (value_of a) (value_of b)"
  by (simp add: double_max_def double_less_iff max_def)

lemma double_minus_antimono:
  assumes "value_of b \<le> value_of c"
  shows "value_of (double_minus a c) \<le> value_of (double_minus a b)"
proof -
  obtain x y e where ab: "aligned a b = (x, y, e)" by (rule prod_cases3)
  obtain x' y' e' where ac: "aligned a c = (x', y', e')" by (rule prod_cases3)
  have "value_of (Double (x - y) e) = value_of a - value_of b"
    using aligned_values [OF ab] by (simp add: value_of_simp algebra_simps)
  moreover have "value_of (Double (x' - y') e') = value_of a - value_of c"
    using aligned_values [OF ac] by (simp add: value_of_simp algebra_simps)
  ultimately have "value_of (Double (x' - y') e') \<le> value_of (Double (x - y) e)"
    using assms by simp
  then have "value_of (round_double (Double (x' - y') e')) \<le> value_of (round_double (Double (x - y) e))"
    by (rule round_double_mono)
  then show ?thesis using ab ac by (simp add: double_minus_def)
qed

lemma double_minus_le:
  assumes "0 \<le> value_of b" "value_of a \<le> value_of c" "bitlen \<bar>mantissa c\<bar> \<le> 53"
  shows "value_of (double_minus a b) \<le> value_of c"
proof -
  obtain x y e where ab: "aligned a b = (x, y, e)" by (rule prod_cases3)
  have "value_of (Double (x - y) e) = value_of a - value_of b"
    using aligned_values [OF ab] by (simp add: value_of_simp algebra_simps)
  then have "value_of (Double (x - y) e) \<le> value_of c" using assms(1,2) by simp
  then have "value_of (round_double (Double (x - y) e)) \<le> value_of (round_double c)"
    by (rule round_double_mono)
  moreover have "round_double c = c"
    using round_double_representable [of "mantissa c" "exponent c"] assms(3) by simp
  ultimately show ?thesis using ab by (simp add: double_minus_def)
qed

lemma value_exact_product:
  "value_of (Double (mantissa a * mantissa b) (exponent a + exponent b)) = value_of a * value_of b"
  by (simp add: value_of_def two_powi_add)

lemma double_mult_mono:
  assumes "0 \<le> value_of a" "value_of b \<le> value_of c"
  shows "value_of (double_mult a b) \<le> value_of (double_mult a c)"
proof -
  have "value_of a * value_of b \<le> value_of a * value_of c"
    using assms by (rule mult_left_mono [rotated])
  then show ?thesis
    unfolding double_mult_def using round_double_mono value_exact_product by simp
qed

lemma double_mult_nonneg:
  assumes "0 \<le> value_of a" "0 \<le> value_of b"
  shows "0 \<le> value_of (double_mult a b)"
proof -
  have "0 \<le> value_of a * value_of b" using assms by simp
  then show ?thesis
    unfolding double_mult_def using round_double_nonneg value_exact_product by simp
qed

lemma double_of_int_mono: "m \<le> n \<Longrightarrow> value_of (double_of_int m) \<le> value_of (double_of_int n)"
  unfolding double_of_int_def by (rule round_double_mono) (simp add: value_of_simp)

lemma double_of_int_nonneg: "0 \<le> n \<Longrightarrow> 0 \<le> value_of (double_of_int n)"
  unfolding double_of_int_def by (rule round_double_nonneg) (simp add: value_of_simp)

lemma truncation_value:
  "truncation d = (if 0 \<le> value_of d then \<lfloor>value_of d\<rfloor> else \<lceil>value_of d\<rceil>)"
proof (cases "0 \<le> exponent d")
  case True
  have "value_of d = real_of_int (mantissa d * 2 ^ nat (exponent d))"
    using True by (simp add: value_of_def two_powi_nat)
  then have "\<lfloor>value_of d\<rfloor> = mantissa d * 2 ^ nat (exponent d)"
    and "\<lceil>value_of d\<rceil> = mantissa d * 2 ^ nat (exponent d)"
    by (simp_all only: floor_of_int ceiling_of_int)
  then show ?thesis using True by (simp add: truncation_def)
next
  case False
  let ?n = "nat (- exponent d)"
  let ?m = "mantissa d"
  have "(2::real) powi exponent d * 2 powi (- exponent d) = 1"
    using two_powi_add [of "exponent d" "- exponent d"] by simp
  moreover have "(2::real) powi (- exponent d) = 2 ^ ?n"
    using False by (simp add: two_powi_nat)
  ultimately have "(2::real) powi exponent d = 1 / 2 ^ ?n" by (simp add: field_simps)
  then have v: "value_of d = real_of_int ?m / 2 ^ ?n" by (simp add: value_of_def)
  have fl: "\<lfloor>real_of_int k / 2 ^ ?n\<rfloor> = k div 2 ^ ?n" for k
    using floor_divide_of_int_eq [of k "2 ^ ?n", where ?'a = real] by simp
  show ?thesis
  proof (cases "0 \<le> ?m")
    case True
    then have "0 \<le> value_of d" by (simp add: v)
    moreover have "sgn ?m * (\<bar>?m\<bar> div 2 ^ ?n) = ?m div 2 ^ ?n"
      using True by (cases "?m = 0") simp_all
    ultimately show ?thesis using False by (simp add: truncation_def v fl)
  next
    case neg: False
    then have "value_of d < 0" by (simp add: v divide_neg_pos)
    moreover have "\<lceil>real_of_int ?m / 2 ^ ?n\<rceil> = - ((- ?m) div 2 ^ ?n)"
      using fl [of "- ?m"] by (simp add: ceiling_def)
    ultimately show ?thesis using False neg by (simp add: truncation_def v)
  qed
qed

lemma truncation_mono:
  assumes "value_of a \<le> value_of b"
  shows "truncation a \<le> truncation b"
proof -
  consider "0 \<le> value_of a" | "value_of b < 0" | "value_of a < 0" "0 \<le> value_of b"
    by linarith
  then show ?thesis
  proof cases
    case 1
    then show ?thesis using assms by (simp add: truncation_value floor_mono)
  next
    case 2
    then show ?thesis using assms by (simp add: truncation_value ceiling_mono)
  next
    case 3
    have "\<lceil>value_of a\<rceil> \<le> 0" using 3(1) by (simp add: ceiling_le_zero)
    moreover have "0 \<le> \<lfloor>value_of b\<rfloor>" using 3(2) by simp
    moreover have "truncation a = \<lceil>value_of a\<rceil>" and "truncation b = \<lfloor>value_of b\<rfloor>"
      using 3 by (simp_all add: truncation_value)
    ultimately show ?thesis by linarith
  qed
qed

lemma to_int64_in_range:
  assumes "0 \<le> value_of d" "value_of d \<le> 9223372036854774784"
  shows "to_int64 d = truncation d"
proof -
  have t: "truncation d = \<lfloor>value_of d\<rfloor>" using assms(1) by (simp add: truncation_value)
  have "0 \<le> \<lfloor>value_of d\<rfloor>" using assms(1) by simp
  moreover have "\<lfloor>value_of d\<rfloor> \<le> 9223372036854774784"
  proof -
    have "\<lfloor>value_of d\<rfloor> \<le> \<lfloor>9223372036854774784 :: real\<rfloor>" using assms(2) by (rule floor_mono)
    then show ?thesis by simp
  qed
  ultimately show ?thesis unfolding to_int64_def t by simp
qed

lemma to_int64_mono:
  assumes "value_of a \<le> value_of b" "0 \<le> value_of a" "value_of b \<le> 9223372036854774784"
  shows "to_int64 a \<le> to_int64 b"
proof -
  have "to_int64 a = truncation a" using assms by (intro to_int64_in_range) simp_all
  moreover have "to_int64 b = truncation b" using assms by (intro to_int64_in_range) simp_all
  ultimately show ?thesis using truncation_mono [OF assms(1)] by simp
qed

section \<open>The cost functions\<close>

text \<open>
  The three constants are doubles (53 bits) and lie within half a unit in the last
  place of 0.4, 0.9 and 0.002.
\<close>

lemma literals_nearest:
  "\<bar>value_of DEFAULT_MIN_PRICE - 4 / 10\<bar> \<le> 2 powi (- 55)"
  "\<bar>value_of DEFAULT_MAX_PRICE - 9 / 10\<bar> \<le> 2 powi (- 54)"
  "\<bar>value_of DEFAULT_DEPRECIATION_RATE - 2 / 1000\<bar> \<le> 2 powi (- 62)"
  by (simp_all add: value_of_def DEFAULT_MIN_PRICE_def DEFAULT_MAX_PRICE_def
      DEFAULT_DEPRECIATION_RATE_def abs_le_iff)

lemma literals_53_bits:
  "bitlen \<bar>mantissa DEFAULT_MIN_PRICE\<bar> = 53"
  "bitlen \<bar>mantissa DEFAULT_MAX_PRICE\<bar> = 53"
  "bitlen \<bar>mantissa DEFAULT_DEPRECIATION_RATE\<bar> = 53"
  by code_simp+

lemma constants_range:
  "0 \<le> value_of DEFAULT_DEPRECIATION_RATE"
  "value_of DEFAULT_MAX_PRICE \<le> value_of (Double 1 0)"
  "value_of DEFAULT_MIN_PRICE \<le> value_of (Double 1 0)"
  by (simp_all add: value_of_def DEFAULT_MIN_PRICE_def DEFAULT_MAX_PRICE_def
      DEFAULT_DEPRECIATION_RATE_def)

lemma rate_unworn: "CostFunction_rate 0 = Double 1 0"
  by (simp add: CostFunction_rate_def CostFunction_curve_def)

lemma rate_worn:
  "0 < wear \<Longrightarrow>
   CostFunction_rate wear =
     double_max DEFAULT_MIN_PRICE
       (double_minus DEFAULT_MAX_PRICE
          (double_mult DEFAULT_DEPRECIATION_RATE (double_of_int (wear - 1))))"
  by (simp add: CostFunction_rate_def CostFunction_curve_def)

lemma rate_antimono:
  assumes "0 \<le> w1" "w1 \<le> w2"
  shows "value_of (CostFunction_rate w2) \<le> value_of (CostFunction_rate w1)"
proof (cases "w2 = 0")
  case True
  then show ?thesis using assms by simp
next
  case w2: False
  let ?loss = "\<lambda>w. double_mult DEFAULT_DEPRECIATION_RATE (double_of_int (w - 1))"
  show ?thesis
  proof (cases "w1 = 0")
    case True
    have "0 \<le> w2 - 1" using assms w2 by simp
    then have "0 \<le> value_of (?loss w2)"
      using constants_range(1) by (simp add: double_mult_nonneg double_of_int_nonneg)
    then have "value_of (double_minus DEFAULT_MAX_PRICE (?loss w2)) \<le> value_of (Double 1 0)"
      using constants_range(2) by (rule double_minus_le) (simp add: bitlen_le_iff_power)
    then show ?thesis
      using constants_range(3) True w2 assms by (simp add: rate_unworn rate_worn value_double_max)
  next
    case w1: False
    have "value_of (double_of_int (w1 - 1)) \<le> value_of (double_of_int (w2 - 1))"
      using assms(2) by (simp add: double_of_int_mono)
    then have "value_of (?loss w1) \<le> value_of (?loss w2)"
      using constants_range(1) by (rule double_mult_mono [rotated])
    then have "value_of (double_minus DEFAULT_MAX_PRICE (?loss w2))
        \<le> value_of (double_minus DEFAULT_MAX_PRICE (?loss w1))"
      by (rule double_minus_antimono)
    then show ?thesis using w1 w2 assms by (simp add: rate_worn value_double_max)
  qed
qed

lemma rate_at_least_floor:
  "wear \<noteq> 0 \<Longrightarrow> value_of DEFAULT_MIN_PRICE \<le> value_of (CostFunction_rate wear)"
  by (simp add: CostFunction_rate_def CostFunction_curve_def value_double_max)

lemma rate_range:
  assumes "0 \<le> wear"
  shows "0 \<le> value_of (CostFunction_rate wear)" and "value_of (CostFunction_rate wear) \<le> 1"
proof -
  have "value_of (CostFunction_rate wear) \<le> value_of (CostFunction_rate 0)"
    using assms by (intro rate_antimono) simp_all
  then show "value_of (CostFunction_rate wear) \<le> 1" by (simp add: rate_unworn value_of_simp)
  show "0 \<le> value_of (CostFunction_rate wear)"
  proof (cases "wear = 0")
    case True
    then show ?thesis by (simp add: rate_unworn value_of_simp)
  next
    case False
    have "0 \<le> value_of DEFAULT_MIN_PRICE" by (simp add: value_of_def DEFAULT_MIN_PRICE_def)
    then show ?thesis using rate_at_least_floor [OF False] by linarith
  qed
qed

text \<open>
  A cost below \<open>2^63 - 512\<close> is converted to a double of at most \<open>2^63 - 1024\<close>,
  the largest double below \<open>2^63\<close>, and a rate between 0 and 1 keeps the product there.
\<close>

lemma cost_in_range:
  assumes "0 \<le> c" "c < 9223372036854775296" "0 \<le> value_of r" "value_of r \<le> 1"
  shows "0 \<le> value_of (double_mult (double_of_int c) r)"
    and "value_of (double_mult (double_of_int c) r) \<le> 9223372036854774784"
proof -
  let ?top = "Double 9007199254740991 10"
  have c: "0 \<le> value_of (double_of_int c)" using assms(1) by (rule double_of_int_nonneg)
  show "0 \<le> value_of (double_mult (double_of_int c) r)" using c assms(3) by (rule double_mult_nonneg)
  have "double_of_int 9223372036854775295 = ?top" by code_simp
  moreover have "value_of (double_of_int c) \<le> value_of (double_of_int 9223372036854775295)"
    using assms(2) by (intro double_of_int_mono) simp
  ultimately have le: "value_of (double_of_int c) \<le> value_of ?top" by simp
  have "value_of (double_of_int c) * value_of r \<le> value_of (double_of_int c) * 1"
    using c assms(4) by (rule mult_left_mono [rotated])
  then have "value_of (Double (mantissa (double_of_int c) * mantissa r)
        (exponent (double_of_int c) + exponent r)) \<le> value_of ?top"
    using le by (simp add: value_exact_product)
  then have "value_of (double_mult (double_of_int c) r) \<le> value_of (round_double ?top)"
    unfolding double_mult_def by (rule round_double_mono)
  moreover have "round_double ?top = ?top" by code_simp
  moreover have "value_of ?top = 9223372036854774784" by (simp add: value_of_simp)
  ultimately show "value_of (double_mult (double_of_int c) r) \<le> 9223372036854774784" by simp
qed

lemma CostFunction_depreciating:
  "mantissa (Get outfit ''ageless'') = 0 \<Longrightarrow> Category outfit \<noteq> ''Ammunition'' \<Longrightarrow>
   CostFunction outfit wear =
     to_int64 (double_mult (double_of_int (Cost outfit)) (CostFunction_rate wear))"
  by (simp add: CostFunction_def)

lemma CostFunction_ageless:
  "mantissa (Get outfit ''ageless'') \<noteq> 0 \<or> Category outfit = ''Ammunition'' \<Longrightarrow>
   CostFunction outfit wear =
     to_int64 (double_mult (double_of_int (Cost outfit)) (Double 1 0))"
  by (auto simp: CostFunction_def rate_unworn)

lemma CostFunction_antimono:
  assumes "mantissa (Get outfit ''ageless'') = 0" "Category outfit \<noteq> ''Ammunition''"
    and "0 \<le> Cost outfit" "Cost outfit < 9223372036854775296" "0 \<le> w1" "w1 \<le> w2"
  shows "CostFunction outfit w2 \<le> CostFunction outfit w1"
proof -
  have w2: "0 \<le> w2" using assms(5,6) by simp
  have "value_of (CostFunction_rate w2) \<le> value_of (CostFunction_rate w1)"
    using assms(5,6) by (rule rate_antimono)
  then have "value_of (double_mult (double_of_int (Cost outfit)) (CostFunction_rate w2))
      \<le> value_of (double_mult (double_of_int (Cost outfit)) (CostFunction_rate w1))"
    using double_of_int_nonneg [OF assms(3)] by (rule double_mult_mono [rotated])
  moreover have "0 \<le> value_of (double_mult (double_of_int (Cost outfit)) (CostFunction_rate w2))"
    using assms(3,4) rate_range [OF w2] by (rule cost_in_range)
  moreover have "value_of (double_mult (double_of_int (Cost outfit)) (CostFunction_rate w1))
      \<le> 9223372036854774784"
    using assms(3,4) rate_range [OF assms(5)] by (rule cost_in_range)
  ultimately show ?thesis
    unfolding CostFunction_depreciating [OF assms(1,2)] by (rule to_int64_mono)
qed

lemma cost_unworn:
  assumes "\<bar>c\<bar> \<le> 2 ^ 53"
  shows "to_int64 (double_mult (double_of_int c) (Double 1 0)) = c"
proof (cases "\<bar>c\<bar> = 2 ^ 53")
  case True
  then have "c = 9007199254740992 \<or> c = - 9007199254740992" by auto
  moreover have "to_int64 (double_mult (double_of_int 9007199254740992) (Double 1 0)) = 9007199254740992"
    by code_simp
  moreover have "to_int64 (double_mult (double_of_int (- 9007199254740992)) (Double 1 0)) = - 9007199254740992"
    by code_simp
  ultimately show ?thesis by auto
next
  case False
  then have "\<bar>c\<bar> < 2 ^ nat 53" using assms by simp
  then have b: "bitlen \<bar>c\<bar> \<le> 53" by (simp add: bitlen_le_iff_power)
  have "double_of_int c = Double c 0"
    using b by (simp add: double_of_int_def round_double_representable)
  moreover have "double_mult (Double c 0) (Double 1 0) = Double c 0"
    using b by (simp add: double_mult_def round_double_representable)
  moreover have "\<bar>c\<bar> \<le> 9007199254740992" using assms by simp
  then have "- 9223372036854775808 \<le> c \<and> c \<le> 9223372036854775807" by linarith
  ultimately show ?thesis by (simp add: to_int64_def truncation_def)
qed

section \<open>The claims\<close>

text \<open>
  C1. As stated the claim fails. AddOutfit stores whatever count it is given in a bucket
  that does not exist yet, and adds to an existing bucket without a lower bound and
  in a 32-bit int: on the empty inventory, AddOutfit(item, -1, 0) leaves the quantity
  -1 at wear 0, AddOutfit(item, 0, 0) leaves a bucket of quantity 0, and
  AddOutfit(item, 2147483647, 0) followed by AddOutfit(item, 1, 0) leaves the quantity
  -2147483648. RemoveOutfit with a count that is not positive, most worn first and a
  destination hands that count to AddOutfit on the destination: with 3 units at wear 0,
  RemoveOutfit(item, -1, true, other) leaves the quantity -1 in the other inventory.
  TransferOutfits(item, -2147483648, null) negates its count in an int, which gives
  -2147483648 again, and adds it; with a destination the same call never returns.
\<close>

theorem no_empty_buckets_counterexample:
  "run [(First, CallAddOutfit 1 (- 1) 0)] ([], []) = Some ([(1, [(0, - 1)])], [])
   \<and> bucket [(1, [(0, - 1)])] 1 0 = Some (- 1)
   \<and> \<not> no_empty_buckets [(1, [(0, - 1)])]
   \<and> run [(First, CallAddOutfit 1 0 0)] ([], []) = Some ([(1, [(0, 0)])], [])
   \<and> bucket [(1, [(0, 0)])] 1 0 = Some 0
   \<and> \<not> no_empty_buckets [(1, [(0, 0)])]
   \<and> run [(First, CallAddOutfit 1 2147483647 0), (First, CallAddOutfit 1 1 0)] ([], [])
       = Some ([(1, [(0, - 2147483648)])], [])
   \<and> \<not> no_empty_buckets [(1, [(0, - 2147483648)])]
   \<and> run [(First, CallAddOutfit 1 3 0), (First, CallRemoveOutfit 1 (- 1) True True)] ([], [])
       = Some ([(1, [(0, 4)])], [(1, [(0, - 1)])])
   \<and> run [(First, CallTransferOutfits 1 (- 2147483648) False True 0)] ([], [])
       = Some ([(1, [(0, - 2147483648)])], [])
   \<and> run [(First, CallTransferOutfits 1 (- 2147483648) True True 0)] ([], []) = None"
proof -
  have "TransferOutfits [] 1 (- 2147483648) (Some []) True 0 = None"
    by (rule TransferOutfits_forever) (simp add: nullptr_def)
  then have "run [(First, CallTransferOutfits 1 (- 2147483648) True True 0)] ([], []) = None"
    by simp
  moreover have "run [(First, CallTransferOutfits 1 (- 2147483648) False True 0)] ([], [])
       = Some ([(1, [(0, - 2147483648)])], [])"
    by (simp add: TransferOutfits.simps nullptr_def AddOutfit_def map_find_def int32_def)
  moreover have "run [(First, CallAddOutfit 1 3 0), (First, CallRemoveOutfit 1 (- 1) True True)] ([], [])
       = Some ([(1, [(0, 4)])], [(1, [(0, - 1)])])"
    by (simp add: RemoveOutfit_def AddOutfit_def map_find_def deposit_def store_ledger_def int32_def
        Let_def)
  moreover have "run [(First, CallAddOutfit 1 2147483647 0), (First, CallAddOutfit 1 1 0)] ([], [])
       = Some ([(1, [(0, - 2147483648)])], [])"
    by (simp add: AddOutfit_def map_find_def store_ledger_def int32_def)
  ultimately show ?thesis
    by (simp add: AddOutfit_def map_find_def bucket_def no_empty_buckets_def positive_def)
qed

text \<open>
  C1, amended. Two inventories start empty and receive any sequence of calls of
  AddOutfit, RemoveOutfit, TransferOutfits, IncrementWear and Clear, the destination of a
  removal or transfer being the other inventory or null. The sequence is disciplined
  when no operation on an int overflows (no bucket is taken beyond 2147483647, and
  TransferOutfits is not given the count -2147483648) and every execution of
  AddOutfit, whether called directly, by RemoveOutfit on its destination or by
  TransferOutfits, adds a positive count to a new bucket or changes an existing bucket
  to a quantity that is not negative. Then every call returns, and afterwards no item
  maps to an empty ledger and every quantity in every ledger is strictly positive (so no
  bucket holds zero).
\<close>

theorem no_empty_buckets_kept:
  assumes "disciplined calls ([], [])"
  shows "\<exists>a b. run calls ([], []) = Some (a, b)
       \<and> no_empty_buckets a \<and> no_empty_buckets b
       \<and> (\<forall>outfit. Find a outfit \<noteq> Some [] \<and> Find b outfit \<noteq> Some [])
       \<and> (\<forall>outfit w q. bucket a outfit w = Some q \<or> bucket b outfit w = Some q \<longrightarrow> 0 < q)"
proof -
  have e: "sound []" by (simp add: sound_def is_group_def is_map_def no_empty_buckets_def)
  obtain a b where r: "run calls ([], []) = Some (a, b)" and s: "sound a" "sound b"
    using sound_run [OF e e assms] by blast
  have inv: "no_empty_buckets a" "no_empty_buckets b" using s by (simp_all add: sound_def)
  have "Find a outfit \<noteq> Some [] \<and> Find b outfit \<noteq> Some []" for outfit
    using no_empty_buckets_ledger [OF inv(1), of outfit "[]"]
      no_empty_buckets_ledger [OF inv(2), of outfit "[]"]
    by (auto simp: Find_def)
  moreover have "0 < q" if "bucket a outfit w = Some q \<or> bucket b outfit w = Some q" for outfit w q
    using that bucket_positive [OF inv(1)] bucket_positive [OF inv(2)] by blast
  ultimately show ?thesis using r inv by blast
qed

theorem no_empty_buckets_kept_witness:
  "disciplined [(First, CallAddOutfit 1 3 0), (First, CallAddOutfit 1 2 5),
                (First, CallTransferOutfits 1 4 True True 0), (Second, CallIncrementWear 2),
                (First, CallAddOutfit 1 (- 1) 0), (Second, CallRemoveOutfit 1 1 False True)] ([], [])
   \<and> run [(First, CallAddOutfit 1 3 0), (First, CallAddOutfit 1 2 5),
           (First, CallTransferOutfits 1 4 True True 0), (Second, CallIncrementWear 2),
           (First, CallAddOutfit 1 (- 1) 0), (Second, CallRemoveOutfit 1 1 False True)] ([], [])
       = Some ([(1, [(2, 1)])], [(1, [(2, 1), (7, 2)])])
   \<and> no_empty_buckets [(1, [(2, 1)])] \<and> no_empty_buckets [(1, [(2, 1), (7, 2)])]"
proof -
  let ?calls = "[(First, CallAddOutfit 1 3 0), (First, CallAddOutfit 1 2 5),
                (First, CallTransferOutfits 1 4 True True 0), (Second, CallIncrementWear 2),
                (First, CallAddOutfit 1 (- 1) 0), (Second, CallRemoveOutfit 1 1 False True)]"
  have d: "disciplined ?calls ([], [])"
    by (simp add: TransferOutfits.simps nullptr_def RemoveOutfit_def AddOutfit_def map_find_def
        deposit_def store_ledger_def bucket_def IncrementWear_def shift_ledger_def int32_def
        add_within_stock_def is_int32_def transfer_admissible_def remove_admissible_def
        deposits_fit_def removal_plan_def units_at_def)
  have r: "run ?calls ([], []) = Some ([(1, [(2, 1)])], [(1, [(2, 1), (7, 2)])])"
    by (simp add: TransferOutfits.simps nullptr_def RemoveOutfit_def AddOutfit_def
        map_find_def deposit_def store_ledger_def bucket_def IncrementWear_def shift_ledger_def
        int32_def)
  show ?thesis using no_empty_buckets_kept [OF d] d r by simp
qed

text \<open>
  C2. As stated the claim fails: when B already holds units of the item, the transfer
  back drains B by B's own removal order and may return other units than those
  received. Here A holds 3 units at wear 0 and B holds 2 units at wear 5; moving 2 units
  from A to B and 2 units back, most worn first, returns the wear-5 units, so that A
  ends with {wear 0: 1, wear 5: 2}.
\<close>

theorem transfer_round_trip_counterexample:
  "TransferOutfits [(1, [(0, 3)])] 1 2 (Some [(1, [(5, 2)])]) True 0
     = Some ([(1, [(0, 1)])], Some [(1, [(0, 2), (5, 2)])], 2)
   \<and> TransferOutfits [(1, [(0, 2), (5, 2)])] 1 2 (Some [(1, [(0, 1)])]) True 0
     = Some ([(1, [(0, 2)])], Some [(1, [(0, 1), (5, 2)])], 2)
   \<and> 2 \<le> GetTotalCount [(1, [(0, 3)])] 1
   \<and> bucket [(1, [(0, 1), (5, 2)])] 1 0 \<noteq> bucket [(1, [(0, 3)])] 1 0
   \<and> bucket [(1, [(0, 2)])] 1 5 \<noteq> bucket [(1, [(5, 2)])] 1 5"
  by (simp add: TransferOutfits.simps nullptr_def RemoveOutfit_def map_find_def deposit_def
      store_ledger_def AddOutfit_def GetTotalCount_def bucket_def int32_def)

text \<open>
  C2, amended. When B holds no unit of the item, moving n units of it (0 \<le> n \<le> the
  quantity A holds) from A to B and then n units from B to A restores every bucket of
  both inventories, whatever the removal orders of the two transfers. Both transfers
  return: the results named in the statement exist.
\<close>

theorem transfer_round_trip:
  assumes A: "is_group A" "no_empty_buckets A" and B: "is_group B" "no_empty_buckets B"
    and none: "Find B item = None"
    and n: "0 \<le> n" "n \<le> GetTotalCount A item"
  shows "\<exists>A' B' moved B'' A'' moved'.
         TransferOutfits A item n (Some B) mostWornFirst defaultWear = Some (A', Some B', moved)
       \<and> TransferOutfits B' item n (Some A') mostWornFirst' defaultWear' = Some (B'', Some A'', moved')
       \<and> (\<forall>outfit w. bucket A'' outfit w = bucket A outfit w)
       \<and> (\<forall>outfit w. bucket B'' outfit w = bucket B outfit w)"
proof (cases "n = 0 \<or> item = nullptr")
  case True
  then have "TransferOutfits A item n (Some B) mostWornFirst defaultWear = Some (A, Some B, 0)"
    and "TransferOutfits B item n (Some A) mostWornFirst' defaultWear' = Some (B, Some A, 0)"
    by (simp_all add: TransferOutfits_nothing)
  then show ?thesis by blast
next
  case False
  then have pos: "0 < n" and item: "item \<noteq> nullptr" using n(1) by simp_all
  have "is_int32 (GetTotalCount A item)" by (simp add: GetTotalCount_total_units is_int32_int32)
  then have le: "n \<le> 2147483647" using n(2) by (simp add: is_int32_def)
  have "GetTotalCount A item \<le> total_units A item"
    using total_units_nonneg [OF A(2)] by (rule GetTotalCount_le_total_units)
  then have avail: "n \<le> total_units A item" using n(2) by simp
  have empty: "total_units B item = 0" using none by (simp add: Find_def total_units_def)
  have none_before: "\<forall>w. units_at B item w = 0" using no_units_of_absent [OF B(2) empty] by blast
  obtain A' to1 moved where
    r1: "RemoveOutfit A item n mostWornFirst (Some B) = (A', to1, moved)"
    by (rule prod_cases3)
  obtain p1 where p1: "p1 = removal_plan A item n mostWornFirst"
    and mv1: "\<forall>x\<in>set p1. is_int32 (fst x) \<and> 0 < snd (snd x) \<and> snd (snd x) \<le> 2147483647"
    using RemoveOutfit_effect [OF A pos le r1] by metis
  have fit1: "deposits_fit B item (removal_plan A item n mostWornFirst)"
    using mv1 none_before p1 by (simp add: deposits_fit_iff)
  obtain B' m1 where
    d1: "to1 = Some B'"
    and A': "is_group A'" "no_empty_buckets A'" and B': "is_group B'" "no_empty_buckets B'"
    and moved: "moved = min n (total_units A item)"
    and uA': "\<forall>outfit' w. units_at A' outfit' w = units_at A outfit' w - (if outfit' = item then m1 w else 0)"
    and uB': "\<forall>outfit' w. units_at B' outfit' w = units_at B outfit' w + (if outfit' = item then m1 w else 0)"
    and tB': "\<forall>outfit'. total_units B' outfit' = total_units B outfit' + (if outfit' = item then moved else 0)"
    by (rule RemoveOutfit_to_destination [OF A B pos le fit1 r1]) blast
  have there: "TransferOutfits A item n (Some B) mostWornFirst defaultWear = Some (A', Some B', moved)"
    using r1 d1 by (simp add: TransferOutfits_forward [OF pos item])
  have holds: "total_units B' item = n" using tB' moved avail empty by simp
  obtain B'' to2 moved' where
    r2: "RemoveOutfit B' item n mostWornFirst' (Some A') = (B'', to2, moved')"
    by (rule prod_cases3)
  obtain p2 where p2: "p2 = removal_plan B' item n mostWornFirst'"
    and inv2: "no_empty_buckets B''"
    and u2: "\<forall>outfit' w. units_at B'' outfit' w =
        units_at B' outfit' w - (if outfit' = item then moved_at p2 w else 0)"
    and dp2: "distinct (map fst p2)"
    using RemoveOutfit_effect [OF B' pos le r2] by metis
  have "units_at A' item (fst x) + snd (snd x) \<le> 2147483647" if x: "x \<in> set p2" for x
  proof -
    obtain w l t where xw: "x = (w, l, t)" by (cases x)
    have "moved_at p2 w = t" using dp2 x xw moved_at_member by blast
    moreover have "0 \<le> units_at B'' item w" using inv2 by (rule units_at_nonneg)
    ultimately have "t \<le> units_at B' item w" using u2 by simp
    then have "t \<le> m1 w" using uB' none_before by simp
    then have "units_at A' item w + t \<le> units_at A item w" using uA' by simp
    moreover have "is_int32 (units_at A item w)" using A(1) by (rule units_at_in_range)
    ultimately show ?thesis using xw by (simp add: is_int32_def)
  qed
  then have fit2: "deposits_fit A' item (removal_plan B' item n mostWornFirst')"
    using p2 by (simp add: deposits_fit_iff)
  obtain A'' m2 where
    d2: "to2 = Some A''"
    and B'': "is_group B''" "no_empty_buckets B''" and A'': "is_group A''" "no_empty_buckets A''"
    and moved': "moved' = min n (total_units B' item)"
    and uB'': "\<forall>outfit' w. units_at B'' outfit' w = units_at B' outfit' w - (if outfit' = item then m2 w else 0)"
    and uA'': "\<forall>outfit' w. units_at A'' outfit' w = units_at A' outfit' w + (if outfit' = item then m2 w else 0)"
    and tB'': "\<forall>outfit'. total_units B'' outfit' = total_units B' outfit' - (if outfit' = item then moved' else 0)"
    by (rule RemoveOutfit_to_destination [OF B' A' pos le fit2 r2]) blast
  have return: "TransferOutfits B' item n (Some A') mostWornFirst' defaultWear' = Some (B'', Some A'', moved')"
    using r2 d2 by (simp add: TransferOutfits_forward [OF pos item])
  have "total_units B'' item = 0" using tB'' moved' holds by simp
  then have gone: "\<forall>w. units_at B'' item w = 0" using no_units_of_absent [OF B''(2)] by blast
  have same_moved: "\<forall>w. m2 w = m1 w"
    using gone uB'' uB' none_before by simp
  have unitsA: "\<forall>outfit w. units_at A'' outfit w = units_at A outfit w"
    using uA'' uA' same_moved by simp
  have unitsB: "\<forall>outfit w. units_at B'' outfit w = units_at B outfit w"
    using uB'' uB' same_moved by simp
  have "(\<forall>outfit w. bucket A'' outfit w = bucket A outfit w)
       \<and> (\<forall>outfit w. bucket B'' outfit w = bucket B outfit w)"
    using unitsA unitsB bucket_of_units [OF A''(2)] bucket_of_units [OF A(2)]
      bucket_of_units [OF B''(2)] bucket_of_units [OF B(2)]
    by simp
  then show ?thesis using there return by blast
qed

theorem transfer_round_trip_witness:
  "is_group [(1, [(0, 3), (5, 2)])] \<and> no_empty_buckets [(1, [(0, 3), (5, 2)])]
   \<and> is_group [(2, [(7, 1)])] \<and> no_empty_buckets [(2, [(7, 1)])]
   \<and> Find [(2, [(7, 1)])] 1 = None \<and> (0::int) \<le> 4 \<and> 4 \<le> GetTotalCount [(1, [(0, 3), (5, 2)])] 1
   \<and> TransferOutfits [(1, [(0, 3), (5, 2)])] 1 4 (Some [(2, [(7, 1)])]) True 0
     = Some ([(1, [(0, 1)])], Some [(1, [(0, 2), (5, 2)]), (2, [(7, 1)])], 4)
   \<and> TransferOutfits [(1, [(0, 2), (5, 2)]), (2, [(7, 1)])] 1 4 (Some [(1, [(0, 1)])]) False 0
     = Some ([(2, [(7, 1)])], Some [(1, [(0, 3), (5, 2)])], 4)
   \<and> bucket [(1, [(0, 3), (5, 2)])] 1 0 = Some 3"
proof -
  let ?A = "[(1, [(0, 3), (5, 2)])] :: OutfitGroup"
  let ?B = "[(2, [(7, 1)])] :: OutfitGroup"
  have A: "is_group ?A" "no_empty_buckets ?A"
    by (simp_all add: is_group_def is_ledger_def is_map_def is_int32_def no_empty_buckets_def positive_def)
  have B: "is_group ?B" "no_empty_buckets ?B"
    by (simp_all add: is_group_def is_ledger_def is_map_def is_int32_def no_empty_buckets_def positive_def)
  have none: "Find ?B 1 = None" by (simp add: Find_def map_find_def)
  have n: "(0::int) \<le> 4" "4 \<le> GetTotalCount ?A 1"
    by (simp_all add: GetTotalCount_def map_find_def int32_def)
  have there: "TransferOutfits ?A 1 4 (Some ?B) True 0
     = Some ([(1, [(0, 1)])], Some [(1, [(0, 2), (5, 2)]), (2, [(7, 1)])], 4)"
    by (simp add: TransferOutfits.simps nullptr_def RemoveOutfit_def map_find_def deposit_def
        store_ledger_def AddOutfit_def int32_def)
  have return: "TransferOutfits [(1, [(0, 2), (5, 2)]), (2, [(7, 1)])] 1 4 (Some [(1, [(0, 1)])]) False 0
     = Some ([(2, [(7, 1)])], Some [(1, [(0, 3), (5, 2)])], 4)"
    by (simp add: TransferOutfits.simps nullptr_def RemoveOutfit_def map_find_def deposit_def
        store_ledger_def AddOutfit_def int32_def)
  have "\<exists>A' B' moved B'' A'' moved'.
         TransferOutfits ?A 1 4 (Some ?B) True 0 = Some (A', Some B', moved)
       \<and> TransferOutfits B' 1 4 (Some A') False 0 = Some (B'', Some A'', moved')
       \<and> (\<forall>outfit w. bucket A'' outfit w = bucket ?A outfit w)
       \<and> (\<forall>outfit w. bucket B'' outfit w = bucket ?B outfit w)"
    using A B none n by (rule transfer_round_trip)
  then have "bucket [(1, [(0, 3), (5, 2)])] 1 0 = bucket ?A 1 0"
    using there return by auto
  moreover have "bucket ?A 1 0 = Some 3" by (simp add: bucket_def map_find_def)
  ultimately show ?thesis using A B none n there return by simp
qed

text \<open>
  C3. As stated, for every inventory, the claim fails: an inventory can hold a negative
  quantity (AddOutfit stores it), and then the loop takes from the buckets it visits
  without regard to the total. After AddOutfit(item, 2, 0) and AddOutfit(item, -3, 5) the
  total is -1; RemoveOutfit(item, 1, false) removes 1 unit, not min(1, -1), and leaves
  the bucket of -3 in place.
\<close>

theorem RemoveOutfit_capped_counterexample:
  "run [(First, CallAddOutfit 1 2 0), (First, CallAddOutfit 1 (- 3) 5)] ([], [])
     = Some ([(1, [(0, 2), (5, - 3)])], [])
   \<and> GetTotalCount [(1, [(0, 2), (5, - 3)])] 1 = - 1
   \<and> RemoveOutfit [(1, [(0, 2), (5, - 3)])] 1 1 False None = ([(1, [(0, 1), (5, - 3)])], None, 1)
   \<and> min 1 (GetTotalCount [(1, [(0, 2), (5, - 3)])] 1) = - 1
   \<and> bucket [(1, [(0, 1), (5, - 3)])] 1 5 = Some (- 3)"
  by (simp add: AddOutfit_def RemoveOutfit_def GetTotalCount_def map_find_def deposit_def
      store_ledger_def bucket_def int32_def)

text \<open>
  C3, amended. On an inventory that satisfies the invariant of the data model (no empty
  ledger, every quantity strictly positive), RemoveOutfit with a positive count removes
  exactly min(count, total quantity of the item) units and returns that number, the
  total being the sum of the buckets of the item: the sum drops by that number, and
  whenever the sum fits an int it is what GetTotalCount returns before and after. Every
  bucket left in the inventory holds a strictly positive quantity (none is negative), and
  for an absent item the result is 0 and the inventory is unchanged. This holds for
  either removal order, with no destination or with another inventory as destination.
\<close>

theorem RemoveOutfit_capped:
  assumes "is_group g" and "no_empty_buckets g" and "0 < count" and "count \<le> 2147483647"
    and "RemoveOutfit g outfit count mostWornFirst to = (g', to', removed)"
  shows "removed = min count (total_units g outfit)
       \<and> total_units g' outfit = total_units g outfit - removed
       \<and> (total_units g outfit \<le> 2147483647 \<longrightarrow>
            removed = min count (GetTotalCount g outfit)
            \<and> GetTotalCount g' outfit = GetTotalCount g outfit - removed)
       \<and> (\<forall>outfit' w q. bucket g' outfit' w = Some q \<longrightarrow> 0 < q)
       \<and> (Find g outfit = None \<longrightarrow> removed = 0 \<and> g' = g)"
proof -
  obtain p where
    inv: "no_empty_buckets g'"
    and r: "removed = min count (total_units g outfit)"
    and tot: "\<forall>outfit'. total_units g' outfit' =
        total_units g outfit' - (if outfit' = outfit then removed else 0)"
    using RemoveOutfit_effect [OF assms] by metis
  have before: "0 \<le> total_units g outfit" using assms(2) by (rule total_units_nonneg)
  have after: "0 \<le> total_units g' outfit" using inv by (rule total_units_nonneg)
  have "removed = min count (GetTotalCount g outfit)
      \<and> GetTotalCount g' outfit = GetTotalCount g outfit - removed"
    if fits: "total_units g outfit \<le> 2147483647"
  proof -
    have "total_units g' outfit \<le> 2147483647" using tot r fits assms(3) by simp
    then have "GetTotalCount g' outfit = total_units g' outfit"
      using after by (simp add: GetTotalCount_in_range)
    moreover have "GetTotalCount g outfit = total_units g outfit"
      using before fits by (simp add: GetTotalCount_in_range)
    ultimately show ?thesis using r tot by simp
  qed
  moreover have "\<forall>outfit' w q. bucket g' outfit' w = Some q \<longrightarrow> 0 < q"
    using bucket_positive [OF inv] by blast
  moreover have "Find g outfit = None \<longrightarrow> removed = 0 \<and> g' = g"
    using assms(5) by (auto simp: Find_def RemoveOutfit_absent)
  ultimately show ?thesis using r tot by simp
qed

theorem RemoveOutfit_capped_witness:
  "is_group [(1, [(0, 3), (5, 2)])] \<and> no_empty_buckets [(1, [(0, 3), (5, 2)])] \<and> (0::int) < 7
   \<and> (7::int) \<le> 2147483647
   \<and> RemoveOutfit [(1, [(0, 3), (5, 2)])] 1 7 False None = ([], None, 5)
   \<and> (5::int) = min 7 (GetTotalCount [(1, [(0, 3), (5, 2)])] 1)
   \<and> GetTotalCount [] 1 = GetTotalCount [(1, [(0, 3), (5, 2)])] 1 - 5"
proof -
  have g: "is_group [(1, [(0, 3), (5, 2)])]"
    by (simp add: is_group_def is_ledger_def is_map_def is_int32_def)
  have inv: "no_empty_buckets [(1, [(0, 3), (5, 2)])]"
    by (simp add: no_empty_buckets_def positive_def)
  have run: "RemoveOutfit [(1, [(0, 3), (5, 2)])] 1 7 False None = ([], None, 5)"
    by (simp add: RemoveOutfit_def map_find_def deposit_def store_ledger_def int32_def)
  have t: "total_units [(1, [(0, 3), (5, 2)])] 1 = 5" by (simp add: total_units_def map_find_def)
  show ?thesis
    using RemoveOutfit_capped [OF g inv _ _ run] g inv run t by simp
qed




text \<open>
  C5. As stated the claim fails at its third value: at wear 126 the rate is
  0.9 - 0.002 * 125 = 0.65, well above the floor 0.4, and the cost of an item of base cost
  1000 is 650, not 400.
\<close>

theorem CostFunction_example_counterexample:
  "CostFunction \<lparr>Cost = 1000, Category = ''Guns'', Get = (\<lambda>name. Double 0 0)\<rparr> 126 = 650"
  by code_simp

text \<open>
  C5, amended. For an item of base cost 1000 that is neither ageless nor ammunition, under
  the default constants, CostFunction(item, 0) = 1000, CostFunction(item, 1) = 900 and
  CostFunction(item, 126) = 650. The floor is reached at wear 251: the cost is at least 402
  up to wear 250, where it is 402, and is 400 from wear 251 on.
\<close>

theorem CostFunction_example:
  assumes "Cost outfit = 1000"
    and "mantissa (Get outfit ''ageless'') = 0" and "Category outfit \<noteq> ''Ammunition''"
  shows "CostFunction outfit 0 = 1000 \<and> CostFunction outfit 1 = 900
       \<and> CostFunction outfit 126 = 650
       \<and> (\<forall>wear. 0 \<le> wear \<and> wear \<le> 250 \<longrightarrow> 402 \<le> CostFunction outfit wear)
       \<and> (\<forall>wear. 251 \<le> wear \<longrightarrow> CostFunction outfit wear = 400)
       \<and> CostFunction outfit 250 = 402"
proof -
  have cf: "CostFunction outfit wear =
      to_int64 (double_mult (double_of_int 1000) (CostFunction_rate wear))" for wear
    using CostFunction_depreciating [OF assms(2,3)] assms(1) by simp
  have v0: "to_int64 (double_mult (double_of_int 1000) (CostFunction_rate 0)) = 1000"
    by code_simp
  have v1: "to_int64 (double_mult (double_of_int 1000) (CostFunction_rate 1)) = 900"
    by code_simp
  have v126: "to_int64 (double_mult (double_of_int 1000) (CostFunction_rate 126)) = 650"
    by code_simp
  have v250: "to_int64 (double_mult (double_of_int 1000) (CostFunction_rate 250)) = 402"
    by code_simp
  have v251: "to_int64 (double_mult (double_of_int 1000) (CostFunction_rate 251)) = 400"
    by code_simp
  have floor: "to_int64 (double_mult (double_of_int 1000) DEFAULT_MIN_PRICE) = 400"
    by code_simp
  have cost: "0 \<le> Cost outfit" "Cost outfit < 9223372036854775296" using assms(1) by simp_all
  have early: "402 \<le> CostFunction outfit wear" if "0 \<le> wear \<and> wear \<le> 250" for wear
    using CostFunction_antimono [OF assms(2,3) cost, of wear 250] that cf [of 250] v250 by simp
  have late: "CostFunction outfit wear = 400" if w: "251 \<le> wear" for wear
  proof -
    have "CostFunction outfit wear \<le> 400"
      using CostFunction_antimono [OF assms(2,3) cost, of 251 wear] w cf [of 251] v251 by simp
    moreover have "400 \<le> CostFunction outfit wear"
    proof -
      have "wear \<noteq> 0" using w by simp
      then have "value_of DEFAULT_MIN_PRICE \<le> value_of (CostFunction_rate wear)"
        by (rule rate_at_least_floor)
      then have "value_of (double_mult (double_of_int 1000) DEFAULT_MIN_PRICE)
          \<le> value_of (double_mult (double_of_int 1000) (CostFunction_rate wear))"
        using double_of_int_nonneg [of 1000] by (simp add: double_mult_mono)
      moreover have "0 \<le> value_of DEFAULT_MIN_PRICE" by (simp add: value_of_def DEFAULT_MIN_PRICE_def)
      then have "0 \<le> value_of (double_mult (double_of_int 1000) DEFAULT_MIN_PRICE)"
        using double_of_int_nonneg [of 1000] by (simp add: double_mult_nonneg)
      moreover have "0 \<le> wear" using w by simp
      then have "value_of (double_mult (double_of_int 1000) (CostFunction_rate wear))
          \<le> 9223372036854774784"
        using rate_range [of wear] by (intro cost_in_range) simp_all
      ultimately have "to_int64 (double_mult (double_of_int 1000) DEFAULT_MIN_PRICE)
          \<le> to_int64 (double_mult (double_of_int 1000) (CostFunction_rate wear))"
        by (rule to_int64_mono)
      then show ?thesis using floor cf [of wear] by simp
    qed
    ultimately show ?thesis by simp
  qed
  show ?thesis using cf [of 0] cf [of 1] cf [of 126] cf [of 250] v0 v1 v126 v250 early late by simp
qed

theorem CostFunction_example_witness:
  "Cost \<lparr>Cost = 1000, Category = ''Guns'', Get = (\<lambda>name. Double 0 0)\<rparr> = 1000
   \<and> mantissa (Get \<lparr>Cost = 1000, Category = ''Guns'', Get = (\<lambda>name. Double 0 0)\<rparr> ''ageless'') = 0
   \<and> Category \<lparr>Cost = 1000, Category = ''Guns'', Get = (\<lambda>name. Double 0 0)\<rparr> \<noteq> ''Ammunition''
   \<and> CostFunction \<lparr>Cost = 1000, Category = ''Guns'', Get = (\<lambda>name. Double 0 0)\<rparr> 1 = 900
   \<and> CostFunction \<lparr>Cost = 1000, Category = ''Guns'', Get = (\<lambda>name. Double 0 0)\<rparr> 300 = 400"
  using CostFunction_example [of "\<lparr>Cost = 1000, Category = ''Guns'', Get = (\<lambda>name. Double 0 0)\<rparr>"]
  by simp

text \<open>
  C6. As stated the claim fails for a negative base cost, which the rate scales towards
  zero, so that the cost grows with wear; for a base cost so large that its conversion
  to \<open>double\<close> is 2^63, which does not fit the \<open>int64_t\<close> returned at wear 0 but
  does once it is multiplied by 0.9 at wear 1; and CostFunction(item, 0) is not the base
  cost when the base cost is not a double.
\<close>

theorem depreciation_counterexample:
  "CostFunction \<lparr>Cost = - 1000, Category = ''Guns'', Get = (\<lambda>name. Double 0 0)\<rparr> 0 = - 1000
   \<and> CostFunction \<lparr>Cost = - 1000, Category = ''Guns'', Get = (\<lambda>name. Double 0 0)\<rparr> 1 = - 900
   \<and> CostFunction \<lparr>Cost = 9223372036854775807, Category = ''Guns'', Get = (\<lambda>name. Double 0 0)\<rparr> 0
     = - 9223372036854775808
   \<and> CostFunction \<lparr>Cost = 9223372036854775807, Category = ''Guns'', Get = (\<lambda>name. Double 0 0)\<rparr> 1
     = 8301034833169298432
   \<and> CostFunction \<lparr>Cost = 9007199254740993, Category = ''Guns'', Get = (\<lambda>name. Double 0 0)\<rparr> 0
     = 9007199254740992"
  by code_simp

text \<open>
  C6, amended. For every item that is neither ageless nor ammunition and whose base cost
  is not negative and less than 2^63 - 512 (so that its conversion to \<open>double\<close> is
  less than 2^63), and all wear levels 0 \<le> w1 \<le> w2, CostFunction(item, w1) \<ge>
  CostFunction(item, w2); and CostFunction(item, 0) is the base cost when that is at
  most 2^53.
\<close>

theorem depreciation_monotonic:
  assumes "mantissa (Get outfit ''ageless'') = 0" and "Category outfit \<noteq> ''Ammunition''"
    and "0 \<le> Cost outfit" and "Cost outfit < 9223372036854775296"
    and "0 \<le> w1" and "w1 \<le> w2"
  shows "CostFunction outfit w2 \<le> CostFunction outfit w1
       \<and> (Cost outfit \<le> 2 ^ 53 \<longrightarrow> CostFunction outfit 0 = Cost outfit)"
proof -
  have "CostFunction outfit 0 = Cost outfit" if "Cost outfit \<le> 2 ^ 53"
  proof -
    have "\<bar>Cost outfit\<bar> \<le> 2 ^ 53" using that assms(3) by simp
    then show ?thesis
      using cost_unworn CostFunction_depreciating [OF assms(1,2), of 0] by (simp add: rate_unworn)
  qed
  then show ?thesis using CostFunction_antimono [OF assms] by simp
qed

theorem depreciation_monotonic_witness:
  "mantissa (Get \<lparr>Cost = 1000, Category = ''Guns'', Get = (\<lambda>name. Double 0 0)\<rparr> ''ageless'') = 0
   \<and> Category \<lparr>Cost = 1000, Category = ''Guns'', Get = (\<lambda>name. Double 0 0)\<rparr> \<noteq> ''Ammunition''
   \<and> 0 \<le> Cost \<lparr>Cost = 1000, Category = ''Guns'', Get = (\<lambda>name. Double 0 0)\<rparr>
   \<and> Cost \<lparr>Cost = 1000, Category = ''Guns'', Get = (\<lambda>name. Double 0 0)\<rparr> < 9223372036854775296
   \<and> (0::int) \<le> 2 \<and> (2::int) \<le> 126
   \<and> CostFunction \<lparr>Cost = 1000, Category = ''Guns'', Get = (\<lambda>name. Double 0 0)\<rparr> 126
     \<le> CostFunction \<lparr>Cost = 1000, Category = ''Guns'', Get = (\<lambda>name. Double 0 0)\<rparr> 2
   \<and> CostFunction \<lparr>Cost = 1000, Category = ''Guns'', Get = (\<lambda>name. Double 0 0)\<rparr> 0 = 1000"
  using depreciation_monotonic [of "\<lparr>Cost = 1000, Category = ''Guns'', Get = (\<lambda>name. Double 0 0)\<rparr>" 2 126]
  by simp

text \<open>
  C7. As stated the claim fails for a base cost that is not a double: the cost is
  converted to \<open>double\<close> before it is multiplied by the rate 1.0, and 2^53 + 1 is
  rounded to 2^53.
\<close>

theorem ageless_cost_counterexample:
  "CostFunction \<lparr>Cost = 9007199254740993, Category = ''Ammunition'', Get = (\<lambda>name. Double 0 0)\<rparr> 5
     = 9007199254740992
   \<and> Cost \<lparr>Cost = 9007199254740993, Category = ''Ammunition'', Get = (\<lambda>name. Double 0 0)\<rparr>
     = 9007199254740993"
  by code_simp

text \<open>
  C7, amended. For every item that is flagged ageless or whose category is "Ammunition",
  and whose base cost is at most 2^53 in magnitude, CostFunction(item, w) is the base
  cost at every wear level w.
\<close>

theorem ageless_cost:
  assumes "mantissa (Get outfit ''ageless'') \<noteq> 0 \<or> Category outfit = ''Ammunition''"
    and "\<bar>Cost outfit\<bar> \<le> 2 ^ 53"
  shows "CostFunction outfit wear = Cost outfit"
  using CostFunction_ageless [OF assms(1)] cost_unworn [OF assms(2)] by simp

theorem ageless_cost_witness:
  "mantissa (Get \<lparr>Cost = 1000, Category = ''Guns'', Get = (\<lambda>name. Double 1 0)\<rparr> ''ageless'') \<noteq> 0
   \<and> \<bar>Cost \<lparr>Cost = 1000, Category = ''Guns'', Get = (\<lambda>name. Double 1 0)\<rparr>\<bar> \<le> 2 ^ 53
   \<and> CostFunction \<lparr>Cost = 1000, Category = ''Guns'', Get = (\<lambda>name. Double 1 0)\<rparr> 126 = 1000"
  using ageless_cost [of "\<lparr>Cost = 1000, Category = ''Guns'', Get = (\<lambda>name. Double 1 0)\<rparr>" 126]
  by simp

text \<open>
  C8. As stated the claim fails: the new key is computed in a 32-bit int. With one unit at
  wear 0 and two units at wear 2147483647, IncrementWear(1) puts the two units at wear
  -2147483648, not at 2147483648.
\<close>

theorem IncrementWear_shifts_counterexample:
  "is_group [(1, [(0, 1), (2147483647, 2)])]
   \<and> bucket [(1, [(0, 1), (2147483647, 2)])] 1 2147483647 = Some 2
   \<and> IncrementWear [(1, [(0, 1), (2147483647, 2)])] 1 = [(1, [(- 2147483648, 2), (1, 1)])]
   \<and> bucket [(1, [(- 2147483648, 2), (1, 1)])] 1 (2147483647 + 1) = None
   \<and> bucket [(1, [(- 2147483648, 2), (1, 1)])] 1 (- 2147483648) = Some 2"
  by (simp add: is_group_def is_ledger_def is_map_def is_int32_def IncrementWear_def
      shift_ledger_def int32_def bucket_def map_find_def)

text \<open>
  C8, amended. After IncrementWear(k) every bucket that was at wear w with quantity q is
  at the wear w + k brought back into the range of int modulo 2^32, which is w + k itself
  whenever w + k is an int, with the same quantity; there is no other bucket (the bucket
  at any wear w is the one that was at w - k, modulo 2^32, if there was one), and
  GetTotalCount of every item is unchanged. The hypothesis is the representation
  invariant, which every C++ value has.
\<close>

theorem IncrementWear_shifts:
  assumes "is_group g"
  shows "(\<forall>outfit w. is_int32 w \<longrightarrow>
            bucket (IncrementWear g k) outfit (int32 (w + k)) = bucket g outfit w)
       \<and> (\<forall>outfit w q. bucket g outfit w = Some q \<and> is_int32 (w + k) \<longrightarrow>
            bucket (IncrementWear g k) outfit (w + k) = Some q)
       \<and> (\<forall>outfit w. bucket (IncrementWear g k) outfit w =
            (if is_int32 w then bucket g outfit (int32 (w - k)) else None))
       \<and> (\<forall>outfit. GetTotalCount (IncrementWear g k) outfit = GetTotalCount g outfit)"
proof -
  have shifted: "bucket (IncrementWear g k) outfit (int32 (w + k)) = bucket g outfit w"
    if "is_int32 w" for outfit w
    using assms that by (rule bucket_IncrementWear)
  have exact: "bucket (IncrementWear g k) outfit (w + k) = Some q"
    if "bucket g outfit w = Some q \<and> is_int32 (w + k)" for outfit w q
  proof -
    have "is_int32 w" using bucket_in_range [OF assms] that by blast
    then show ?thesis using shifted [where w = w and outfit = outfit] that by (simp add: int32_id)
  qed
  have g': "is_group (IncrementWear g k)" using assms by (rule is_group_IncrementWear)
  have every: "bucket (IncrementWear g k) outfit w =
      (if is_int32 w then bucket g outfit (int32 (w - k)) else None)" for outfit w
  proof (cases "is_int32 w")
    case True
    then show ?thesis using bucket_IncrementWear_back [OF assms] by simp
  next
    case False
    then have "bucket (IncrementWear g k) outfit w = None"
      using bucket_in_range [OF g', of outfit w] by (cases "bucket (IncrementWear g k) outfit w") auto
    then show ?thesis using False by simp
  qed
  show ?thesis using shifted exact every GetTotalCount_IncrementWear [OF assms] by blast
qed

theorem IncrementWear_shifts_witness:
  "is_group [(1, [(0, 3), (5, 2)]), (2, [(7, 1)])]
   \<and> IncrementWear [(1, [(0, 3), (5, 2)]), (2, [(7, 1)])] 4 = [(1, [(4, 3), (9, 2)]), (2, [(11, 1)])]
   \<and> is_int32 5 \<and> is_int32 (5 + 4)
   \<and> bucket [(1, [(4, 3), (9, 2)]), (2, [(11, 1)])] 1 (5 + 4) = bucket [(1, [(0, 3), (5, 2)]), (2, [(7, 1)])] 1 5
   \<and> bucket [(1, [(0, 3), (5, 2)]), (2, [(7, 1)])] 1 5 = Some 2
   \<and> bucket [(1, [(4, 3), (9, 2)]), (2, [(11, 1)])] 1 5 = None
   \<and> GetTotalCount [(1, [(4, 3), (9, 2)]), (2, [(11, 1)])] 1 = 5"
proof -
  let ?g = "[(1, [(0, 3), (5, 2)]), (2, [(7, 1)])] :: OutfitGroup"
  have g: "is_group ?g" by (simp add: is_group_def is_ledger_def is_map_def is_int32_def)
  have run: "IncrementWear ?g 4 = [(1, [(4, 3), (9, 2)]), (2, [(11, 1)])]"
    by (simp add: IncrementWear_def shift_ledger_def int32_def)
  have r: "is_int32 5" "is_int32 (5 + 4)" by (simp_all add: is_int32_def)
  have vals: "bucket ?g 1 5 = Some 2" "bucket ?g 1 1 = None" "GetTotalCount ?g 1 = 5"
    "int32 (5 - 4) = 1"
    by (simp_all add: bucket_def GetTotalCount_def map_find_def int32_def)
  have "(bucket ?g 1 5 = Some 2 \<and> is_int32 (5 + 4) \<longrightarrow> bucket (IncrementWear ?g 4) 1 (5 + 4) = Some 2)
      \<and> bucket (IncrementWear ?g 4) 1 5 = (if is_int32 5 then bucket ?g 1 (int32 (5 - 4)) else None)
      \<and> GetTotalCount (IncrementWear ?g 4) 1 = GetTotalCount ?g 1"
    using IncrementWear_shifts [OF g, of 4] by blast
  then show ?thesis using g run vals r by simp
qed

text \<open>
  C9. The code does not do what the claim says. \<open>operator!=\<close> is the negation of
  the relation of the claim, but \<open>operator==\<close> compares the two positions only and
  never looks at \<open>isEnd\<close>: for a group with one bucket, the iterator that was
  advanced from \<open>begin()\<close> past that bucket and the iterator \<open>end()\<close> are both
  exhausted, \<open>operator!=\<close> says they are not different, and \<open>operator==\<close> says they
  are not equal.
\<close>

theorem exhausted_iterators_not_equal:
  "isEnd (operator_inc [(1, [(0, 3)])] (OutfitGroup_begin 7 [(1, [(0, 3)])]))
   \<and> isEnd (OutfitGroup_end 7 [(1, [(0, 3)])])
   \<and> \<not> operator_ne (operator_inc [(1, [(0, 3)])] (OutfitGroup_begin 7 [(1, [(0, 3)])]))
                  (OutfitGroup_end 7 [(1, [(0, 3)])])
   \<and> \<not> operator_eq (operator_inc [(1, [(0, 3)])] (OutfitGroup_begin 7 [(1, [(0, 3)])]))
              (OutfitGroup_end 7 [(1, [(0, 3)])])"
  by (simp add: operator_inc_def OutfitGroup_begin_def OutfitGroup_end_def iterator_at_def
      operator_ne_def operator_eq_def)

theorem exhausted_iterators_not_equal_witness:
  "operator_eq (operator_inc [(1, [(0, 3)])] (OutfitGroup_begin 7 [(1, [(0, 3)])]))
     (OutfitGroup_end 7 [(1, [(0, 3)])]) = False
   \<and> operator_ne (operator_inc [(1, [(0, 3)])] (OutfitGroup_begin 7 [(1, [(0, 3)])]))
     (OutfitGroup_end 7 [(1, [(0, 3)])]) = False"
  using exhausted_iterators_not_equal by simp

text \<open>
  C10. AddOutfit returns exactly its count argument, whatever the inventory, the item,
  the wear level and the sign of the count, and whether or not the item or the bucket
  is already there.
\<close>

theorem AddOutfit_returns_count: "snd (AddOutfit g outfit count wear) = count"
  by (simp add: AddOutfit_def Let_def split: option.split)

end
